theory Spec2Isabelle
  imports Main "HOL-Library.Word"
begin

unbundle bit_operations_syntax

section \<open>Data model of the MFS server\<close>

text \<open>
  The C++ types of the source: \<open>char\<close> is an 8-bit word, \<open>unsigned int\<close> a 32-bit
  word, \<open>unsigned long long\<close> a 64-bit word, \<open>unsigned short\<close> a 16-bit word.
  Whether plain \<open>char\<close> is signed is left to the C++ implementation; the conversion
  \<open>(unsigned int)buffer[k]\<close> depends on it, so the model carries it as a parameter.
\<close>

type_synonym byte = "8 word"
type_synonym client_t = "32 word"

definition OP_NOOP :: byte where "OP_NOOP = 0"
definition OP_READ :: byte where "OP_READ = 1"
definition OP_WRITE :: byte where "OP_WRITE = 2"
definition OP_LS :: byte where "OP_LS = 3"
definition OP_ERROR :: byte where "OP_ERROR = 4"
definition MFS_RESERVED_OP_RANGE :: byte where "MFS_RESERVED_OP_RANGE = 30"

definition RESPONSE_OF :: "byte \<Rightarrow> byte" where
  "RESPONSE_OF x = x OR 0x80"

record client_handlers_t =
  client :: client_t
  timer_end :: "64 word"

text \<open>
  A \<open>char*\<close> held in a message: null, one of the two shared buffers of the server,
  or memory owned by somebody else (a file handler), given by its contents.
\<close>

datatype ptr = Null | Path_Buffer | Data_Buffer | Mem "byte list"

record mfs_message_t =
  psize :: "32 word"
  dsize :: "32 word"
  op :: byte
  path :: ptr
  data :: ptr

section \<open>The header codec\<close>

definition fill_headers :: "mfs_message_t \<Rightarrow> byte list" where
  "fill_headers msg =
     [ ucast (psize msg AND 0xFF),
       ucast (drop_bit 8 (psize msg) AND 0xFF),
       ucast (drop_bit 16 (psize msg) AND 0xFF),
       ucast (drop_bit 24 (psize msg) AND 0xFF),
       ucast (dsize msg AND 0xFF),
       ucast (drop_bit 8 (dsize msg) AND 0xFF),
       ucast (drop_bit 16 (dsize msg) AND 0xFF),
       ucast (drop_bit 24 (dsize msg) AND 0xFF),
       op msg ]"

text \<open>
  \<open>(unsigned int)c\<close> for a plain \<open>char c\<close>: sign extension where \<open>char\<close> is signed,
  zero extension where it is unsigned.
\<close>

definition char_to_uint :: "bool \<Rightarrow> byte \<Rightarrow> 32 word" where
  "char_to_uint sch c = (if sch then scast c else ucast c)"

definition read_headers :: "bool \<Rightarrow> byte list \<Rightarrow> mfs_message_t \<Rightarrow> mfs_message_t" where
  "read_headers sch buffer msg =
     msg\<lparr> psize := 0 OR char_to_uint sch (buffer ! 0)
                      OR push_bit 8 (char_to_uint sch (buffer ! 1))
                      OR push_bit 16 (char_to_uint sch (buffer ! 2))
                      OR push_bit 24 (char_to_uint sch (buffer ! 3)),
          dsize := 0 OR char_to_uint sch (buffer ! 4)
                      OR push_bit 8 (char_to_uint sch (buffer ! 5))
                      OR push_bit 16 (char_to_uint sch (buffer ! 6))
                      OR push_bit 24 (char_to_uint sch (buffer ! 7)),
          op := buffer ! 8 \<rparr>"

section \<open>Memory helpers\<close>

text \<open>
  What C++ leaves undefined is a value of the model: an access outside an array, a
  dereference of the null pointer, a call through a null function pointer.
\<close>

datatype fault = Out_Of_Bounds | Null_Dereference | Null_Call

text \<open>
  A \<open>char*\<close> argument of the helper functions: \<open>None\<close> is the null pointer,
  \<open>Some bs\<close> the array it points to. \<open>peek buf i\<close> is the read \<open>buf[i]\<close>.
\<close>

definition peek :: "byte list option \<Rightarrow> nat \<Rightarrow> fault + byte" where
  "peek buf i =
     (case buf of
        None \<Rightarrow> Inl Null_Dereference
      | Some bs \<Rightarrow> if i < length bs then Inr (bs ! i) else Inl Out_Of_Bounds)"

function memcmp_loop :: "byte list option \<Rightarrow> byte list option \<Rightarrow> nat \<Rightarrow> nat \<Rightarrow> fault + int" where
  "memcmp_loop buf1 buf2 n i =
     (if i < n then
        (case peek buf1 i of
           Inl f \<Rightarrow> Inl f
         | Inr a \<Rightarrow>
            (case peek buf2 i of
               Inl f \<Rightarrow> Inl f
             | Inr b \<Rightarrow> if a \<noteq> b then Inr 1 else memcmp_loop buf1 buf2 n (Suc i)))
      else Inr 0)"
  by pat_completeness auto
termination
  by (relation "measure (\<lambda>(buf1, buf2, n, i). n - i)") auto

definition memcmp :: "byte list option \<Rightarrow> byte list option \<Rightarrow> 32 word \<Rightarrow> 32 word \<Rightarrow> fault + int" where
  "memcmp buf1 buf2 buf1_size buf2_size =
     (if buf1_size \<noteq> buf2_size then Inr 1
      else memcmp_loop buf1 buf2 (unat buf1_size) 0)"

function strlen_loop :: "byte list option \<Rightarrow> nat \<Rightarrow> nat \<Rightarrow> fault + nat" where
  "strlen_loop buf buf_size len =
     (if len < buf_size then
        (case peek buf len of
           Inl f \<Rightarrow> Inl f
         | Inr c \<Rightarrow> if c = 0 then Inr len else strlen_loop buf buf_size (Suc len))
      else Inr len)"
  by pat_completeness auto
termination
  by (relation "measure (\<lambda>(buf, buf_size, len). buf_size - len)") auto

definition strlen :: "byte list option \<Rightarrow> 32 word \<Rightarrow> fault + 32 word" where
  "strlen buf buf_size =
     (case strlen_loop buf (unat buf_size) 0 of
        Inl f \<Rightarrow> Inl f
      | Inr len \<Rightarrow> if len = unat buf_size then Inr 0 else Inr (of_nat len))"

text \<open>\<open>memcpy n src dest offset\<close> copies \<open>src[0..n)\<close> to \<open>dest[offset..offset+n)\<close>.\<close>

function memcpy_loop :: "nat \<Rightarrow> byte list option \<Rightarrow> byte list \<Rightarrow> nat \<Rightarrow> nat \<Rightarrow> fault + byte list" where
  "memcpy_loop n src dest offset i =
     (if i < n then
        (case peek src i of
           Inl f \<Rightarrow> Inl f
         | Inr c \<Rightarrow>
            if i + offset < length dest
            then memcpy_loop n src (dest[i + offset := c]) offset (Suc i)
            else Inl Out_Of_Bounds)
      else Inr dest)"
  by pat_completeness auto
termination
  by (relation "measure (\<lambda>(n, src, dest, offset, i). n - i)") auto

definition memcpy :: "32 word \<Rightarrow> byte list option \<Rightarrow> byte list \<Rightarrow> 32 word \<Rightarrow> fault + byte list" where
  "memcpy n src dest offset = memcpy_loop (unat n) src dest (unat offset) 0"

section \<open>The file table\<close>

text \<open>
  A file handler receives the request and may read the two shared buffers; it returns
  the message to send.
\<close>

type_synonym handler = "mfs_message_t \<Rightarrow> byte list \<Rightarrow> byte list \<Rightarrow> mfs_message_t"

record mfs_file_t =
  file_path :: "byte list option"
  path_size :: "32 word"
  writer_f :: "handler option"
  reader_f :: "handler option"

function nul_scan :: "byte list option \<Rightarrow> nat \<Rightarrow> nat \<Rightarrow> fault + bool" where
  "nul_scan pth n i =
     (if i < n then
        (case peek pth i of
           Inl f \<Rightarrow> Inl f
         | Inr c \<Rightarrow> if c = 0 then Inr True else nul_scan pth n (Suc i))
      else Inr False)"
  by pat_completeness auto
termination
  by (relation "measure (\<lambda>(pth, n, i). n - i)") auto

function file_scan :: "mfs_file_t list \<Rightarrow> byte list option \<Rightarrow> 32 word \<Rightarrow> nat \<Rightarrow> fault + int" where
  "file_scan fs pth n i =
     (if i < length fs then
        (case strlen (file_path (fs ! i)) (path_size (fs ! i)) of
           Inl f \<Rightarrow> Inl f
         | Inr len \<Rightarrow>
            (case memcmp pth (file_path (fs ! i)) n len of
               Inl f \<Rightarrow> Inl f
             | Inr r \<Rightarrow> if r \<noteq> 0 then file_scan fs pth n (Suc i) else Inr (int i)))
      else Inr (- 1))"
  by pat_completeness auto
termination
  by (relation "measure (\<lambda>(fs, pth, n, i). length fs - i)") auto

text \<open>
  \<open>get_file_index\<close>: the first loop rejects a zero byte among the first \<open>psize\<close>
  bytes of the path, the second returns the first slot that \<open>memcmp\<close> accepts.
\<close>

definition get_file_index :: "mfs_file_t list \<Rightarrow> byte list option \<Rightarrow> 32 word \<Rightarrow> fault + int" where
  "get_file_index fs pth n =
     (case nul_scan pth (unat n) 0 of
        Inl f \<Rightarrow> Inl f
      | Inr found \<Rightarrow> if found then Inr (- 1) else file_scan fs pth n 0)"

definition is_file_empty :: "mfs_file_t \<Rightarrow> bool" where
  "is_file_empty f \<longleftrightarrow>
     path_size f = 0 \<and> file_path f = None \<and> reader_f f = None \<and> writer_f f = None"

declare memcmp_loop.simps [simp del]
declare strlen_loop.simps [simp del]
declare memcpy_loop.simps [simp del]
declare nul_scan.simps [simp del]
declare file_scan.simps [simp del]

section \<open>The server object and its callbacks\<close>

text \<open>
  The transport, the clock and the file handlers are outside the program. The callbacks
  are fields of the server, as in the class; they act on a state \<open>'e\<close> of the outside
  world that the model threads through every call. A read callback answers \<open>None\<close> for
  a negative return value and \<open>Some bs\<close> when it has stored the bytes \<open>bs\<close> and returns
  their number; a write callback answers its return value. \<open>calls\<close> is not a field of
  the class: it records every call that leaves the server, in order.
\<close>

datatype call =
    Call_read client_t nat
  | Call_write client_t "byte list"
  | Call_close client_t
  | Call_available client_t
  | Call_millis
  | Call_accept
  | Call_reader_f nat
  | Call_writer_f nat

record 'e mfs_server =
  path_buffer :: "byte list"
  data_buffer :: "byte list"
  path_bsize :: "32 word"
  data_bsize :: "32 word"
  clients :: "client_handlers_t list"
  files :: "mfs_file_t list"
  client_writer :: "'e \<Rightarrow> client_t \<Rightarrow> byte list \<Rightarrow> int \<times> 'e"
  client_reader :: "'e \<Rightarrow> client_t \<Rightarrow> nat \<Rightarrow> byte list option \<times> 'e"
  client_killer :: "'e \<Rightarrow> client_t \<Rightarrow> 'e"
  client_available :: "'e \<Rightarrow> client_t \<Rightarrow> 64 word \<times> 'e"
  accept_client :: "'e \<Rightarrow> client_t \<times> 'e"
  millis :: "'e \<Rightarrow> 64 word \<times> 'e"
  timer_ms :: "32 word"
  hard_limit :: "32 word"
  char_signed :: bool
  world :: 'e
  calls :: "call list"

definition call_writer :: "client_t \<Rightarrow> byte list \<Rightarrow> 'e mfs_server \<Rightarrow> int \<times> 'e mfs_server" where
  "call_writer c bs s =
     (let (r, w) = client_writer s (world s) c bs
      in (r, s\<lparr>world := w, calls := calls s @ [Call_write c bs]\<rparr>))"

definition call_reader :: "client_t \<Rightarrow> nat \<Rightarrow> 'e mfs_server \<Rightarrow> byte list option \<times> 'e mfs_server" where
  "call_reader c n s =
     (let (r, w) = client_reader s (world s) c n
      in (r, s\<lparr>world := w, calls := calls s @ [Call_read c n]\<rparr>))"

definition call_killer :: "client_t \<Rightarrow> 'e mfs_server \<Rightarrow> 'e mfs_server" where
  "call_killer c s = s\<lparr>world := client_killer s (world s) c, calls := calls s @ [Call_close c]\<rparr>"

definition call_available :: "client_t \<Rightarrow> 'e mfs_server \<Rightarrow> 64 word \<times> 'e mfs_server" where
  "call_available c s =
     (let (a, w) = client_available s (world s) c
      in (a, s\<lparr>world := w, calls := calls s @ [Call_available c]\<rparr>))"

definition call_millis :: "'e mfs_server \<Rightarrow> 64 word \<times> 'e mfs_server" where
  "call_millis s =
     (let (t, w) = millis s (world s)
      in (t, s\<lparr>world := w, calls := calls s @ [Call_millis]\<rparr>))"

text \<open>\<open>read_ok r n\<close>: the read callback returned \<open>n\<close>.\<close>

definition read_ok :: "byte list option \<Rightarrow> nat \<Rightarrow> bool" where
  "read_ok r n = (case r of None \<Rightarrow> False | Some bs \<Rightarrow> length bs = n)"

definition received :: "byte list option \<Rightarrow> byte list" where
  "received r = (case r of None \<Rightarrow> [] | Some bs \<Rightarrow> bs)"

text \<open>The buffer after a read of at most \<open>n\<close> bytes into its start.\<close>

definition store :: "byte list option \<Rightarrow> nat \<Rightarrow> byte list \<Rightarrow> byte list" where
  "store r n buf = take n (received r) @ drop (min n (length (received r))) buf"

definition read_into_path :: "client_t \<Rightarrow> 32 word \<Rightarrow> 'e mfs_server \<Rightarrow> fault + (bool \<times> 'e mfs_server)" where
  "read_into_path c n s =
     (if length (path_buffer s) < unat n then Inl Out_Of_Bounds
      else let (r, s1) = call_reader c (unat n) s
           in Inr (read_ok r (unat n), s1\<lparr>path_buffer := store r (unat n) (path_buffer s1)\<rparr>))"

definition read_into_data :: "client_t \<Rightarrow> 32 word \<Rightarrow> 'e mfs_server \<Rightarrow> fault + (bool \<times> 'e mfs_server)" where
  "read_into_data c n s =
     (if length (data_buffer s) < unat n then Inl Out_Of_Bounds
      else let (r, s1) = call_reader c (unat n) s
           in Inr (read_ok r (unat n), s1\<lparr>data_buffer := store r (unat n) (data_buffer s1)\<rparr>))"

text \<open>The \<open>n\<close> bytes a write callback is handed at pointer \<open>p\<close>.\<close>

definition region :: "'e mfs_server \<Rightarrow> ptr \<Rightarrow> nat \<Rightarrow> fault + byte list" where
  "region s p n =
     (case p of
        Null \<Rightarrow> if n = 0 then Inr [] else Inl Null_Dereference
      | Path_Buffer \<Rightarrow>
          if n \<le> length (path_buffer s) then Inr (take n (path_buffer s)) else Inl Out_Of_Bounds
      | Data_Buffer \<Rightarrow>
          if n \<le> length (data_buffer s) then Inr (take n (data_buffer s)) else Inl Out_Of_Bounds
      | Mem bs \<Rightarrow> if n \<le> length bs then Inr (take n bs) else Inl Out_Of_Bounds)"

definition write_from :: "client_t \<Rightarrow> ptr \<Rightarrow> 32 word \<Rightarrow> 'e mfs_server \<Rightarrow> fault + (int \<times> 'e mfs_server)" where
  "write_from c p n s =
     (case region s p (unat n) of
        Inl f \<Rightarrow> Inl f
      | Inr bs \<Rightarrow> Inr (call_writer c bs s))"

subsection \<open>Dropping a client\<close>

fun client_slot :: "client_t \<Rightarrow> client_handlers_t list \<Rightarrow> nat option" where
  "client_slot c [] = None"
| "client_slot c (h # hs) = (if c = client h then Some 0 else map_option Suc (client_slot c hs))"

definition drop_client :: "client_t \<Rightarrow> 'e mfs_server \<Rightarrow> int \<times> 'e mfs_server" where
  "drop_client c s =
     (if c = 0 then (0, s)
      else case client_slot c (clients s) of
             None \<Rightarrow> (1, s)
           | Some i \<Rightarrow>
               (0, (call_killer (client (clients s ! i)) s)
                     \<lparr>clients := (clients s)[i := (clients s ! i)\<lparr>client := 0\<rparr>]\<rparr>))"

subsection \<open>Sending\<close>

definition send_mfs_message :: "mfs_message_t \<Rightarrow> client_t \<Rightarrow> 'e mfs_server \<Rightarrow> fault + (int \<times> 'e mfs_server)" where
  "send_mfs_message msg c s =
     (let (r1, s1) = call_writer c (fill_headers msg) s in
      if r1 \<noteq> 9 then Inr (- 1, snd (drop_client c s1))
      else
        (case write_from c (path msg) (psize msg) s1 of
           Inl f \<Rightarrow> Inl f
         | Inr (r2, s2) \<Rightarrow>
             if r2 \<noteq> uint (psize msg) then Inr (- 1, snd (drop_client c s2))
             else
               (case write_from c (data msg) (dsize msg) s2 of
                  Inl f \<Rightarrow> Inl f
                | Inr (r3, s3) \<Rightarrow>
                    if r3 \<noteq> uint (dsize msg) then Inr (- 1, snd (drop_client c s3))
                    else Inr (0, s3))))"

definition send_mfs_error :: "mfs_message_t \<Rightarrow> client_t \<Rightarrow> 16 word \<Rightarrow> 'e mfs_server \<Rightarrow> fault + (int \<times> 'e mfs_server)" where
  "send_mfs_error msg c error_code s =
     (if length (data_buffer s) < 2 then Inl Out_Of_Bounds
      else
        let msg1 = msg\<lparr>op := RESPONSE_OF OP_ERROR, dsize := 2, data := Data_Buffer\<rparr>;
            s1 = s\<lparr>data_buffer := (data_buffer s)
                     [0 := 0, 1 := 0,
                      0 := ucast (error_code AND 0xFF),
                      1 := ucast (drop_bit 8 error_code AND 0xFF)]\<rparr>
        in send_mfs_message msg1 c s1)"

subsection \<open>Reading a request\<close>

definition empty_error_msg :: mfs_message_t where
  "empty_error_msg =
     \<lparr>psize = 0, dsize = 0, op = RESPONSE_OF OP_ERROR, path = Null, data = Null\<rparr>"

text \<open>
  The local \<open>result\<close> of \<open>read_mfs_message\<close> before \<open>read_headers\<close> fills it. Its
  pointers are assigned before the message is returned and never read before that.
\<close>

definition fresh_msg :: mfs_message_t where
  "fresh_msg = \<lparr>psize = 0, dsize = 0, op = 0, path = Null, data = Null\<rparr>"

text \<open>
  The loop that consumes an oversized path ends its body with an unconditional
  \<open>break\<close>: the body runs once when \<open>psize\<close> is positive and never again. A failed
  read drops the client there and the function goes on.
\<close>

definition drain_path :: "client_t \<Rightarrow> 32 word \<Rightarrow> 'e mfs_server \<Rightarrow> fault + 'e mfs_server" where
  "drain_path c ps s =
     (if 0 < ps then
        (let chunk_size = (if ps - 0 > path_bsize s then path_bsize s else ps - 0) in
         case read_into_path c chunk_size s of
           Inl f \<Rightarrow> Inl f
         | Inr (ok, s1) \<Rightarrow> Inr (if \<not> ok then snd (drop_client c s1) else s1))
      else Inr s)"

text \<open>
  The loop that consumes the data. With a data buffer of capacity 0 and a read
  callback that returns 0 for a read of 0 bytes it never ends, so it is a partial
  function: \<open>None\<close> is "does not return".
\<close>

partial_function (option) drain_data ::
  "client_t \<Rightarrow> 32 word \<Rightarrow> 32 word \<Rightarrow> 'e mfs_server \<Rightarrow> (fault + 'e mfs_server) option" where
  "drain_data c ds processed_data s =
     (if processed_data < ds then
        (let chunk_size = (if ds - processed_data > data_bsize s then data_bsize s
                           else ds - processed_data) in
         case read_into_data c chunk_size s of
           Inl f \<Rightarrow> Some (Inl f)
         | Inr x \<Rightarrow>
             if \<not> fst x then Some (Inr (snd (drop_client c (snd x))))
             else drain_data c ds (processed_data + chunk_size) (snd x))
      else Some (Inr s))"

declare drain_data.simps [code]

definition answer_error :: "client_t \<Rightarrow> 16 word \<Rightarrow> 'e mfs_server \<Rightarrow> (fault + (mfs_message_t \<times> 'e mfs_server)) option" where
  "answer_error c code s =
     (case send_mfs_error empty_error_msg c code s of
        Inl f \<Rightarrow> Some (Inl f)
      | Inr (r, s1) \<Rightarrow> Some (Inr (empty_error_msg, s1)))"

definition read_mfs_message :: "client_t \<Rightarrow> 'e mfs_server \<Rightarrow> (fault + (mfs_message_t \<times> 'e mfs_server)) option" where
  "read_mfs_message c s =
     (let (r, s1) = call_reader c 9 s in
      if \<not> read_ok r 9 then answer_error c 3 s1
      else
        let result = read_headers (char_signed s1) (received r) fresh_msg in
        if psize result > hard_limit s1 \<or> dsize result > hard_limit s1
        then Some (Inr (empty_error_msg, snd (drop_client c s1)))
        else if psize result > path_bsize s1 \<or> dsize result > data_bsize s1 then
          (case drain_path c (psize result) s1 of
             Inl f \<Rightarrow> Some (Inl f)
           | Inr s2 \<Rightarrow>
              (case drain_data c (dsize result) 0 s2 of
                 None \<Rightarrow> None
               | Some (Inl f) \<Rightarrow> Some (Inl f)
               | Some (Inr s3) \<Rightarrow> answer_error c 1 s3))
        else
          (case read_into_path c (psize result) s1 of
             Inl f \<Rightarrow> Some (Inl f)
           | Inr (ok1, s2) \<Rightarrow>
              if \<not> ok1 then answer_error c 1 s2
              else
                (case read_into_data c (dsize result) s2 of
                   Inl f \<Rightarrow> Some (Inl f)
                 | Inr (ok2, s3) \<Rightarrow>
                    if \<not> ok2 then answer_error c 1 s3
                    else Some (Inr (result\<lparr>data := Data_Buffer, path := Path_Buffer\<rparr>, s3)))))"

subsection \<open>Listing the files\<close>

fun ls_total :: "mfs_file_t list \<Rightarrow> 32 word \<Rightarrow> fault + 32 word" where
  "ls_total [] total_size = Inr total_size"
| "ls_total (f # fs) total_size =
     (case strlen (file_path f) (path_size f) of
        Inl e \<Rightarrow> Inl e
      | Inr len \<Rightarrow> ls_total fs (total_size + len + 1))"

fun ls_fill :: "mfs_file_t list \<Rightarrow> byte list \<Rightarrow> 32 word \<Rightarrow> fault + (byte list \<times> 32 word)" where
  "ls_fill [] buf data_processed = Inr (buf, data_processed)"
| "ls_fill (f # fs) buf data_processed =
     (case strlen (file_path f) (path_size f) of
        Inl e \<Rightarrow> Inl e
      | Inr str_len \<Rightarrow>
          if str_len = 0 then ls_fill fs buf data_processed
          else
            (case memcpy str_len (file_path f) buf data_processed of
               Inl e \<Rightarrow> Inl e
             | Inr buf1 \<Rightarrow>
                 if unat (data_processed + str_len) < length buf1
                 then ls_fill fs (buf1[unat (data_processed + str_len) := 0])
                        (data_processed + str_len + 1)
                 else Inl Out_Of_Bounds))"

fun ls_stream :: "mfs_file_t list \<Rightarrow> client_t \<Rightarrow> 'e mfs_server \<Rightarrow> fault + 'e mfs_server" where
  "ls_stream [] c s = Inr s"
| "ls_stream (f # fs) c s =
     (case strlen (file_path f) (path_size f) of
        Inl e \<Rightarrow> Inl e
      | Inr str_len \<Rightarrow>
          if str_len = 0 then ls_stream fs c s
          else
            (case file_path f of
               None \<Rightarrow> Inl Null_Dereference
             | Some nm \<Rightarrow>
                 (let (r1, s1) = call_writer c (take (unat str_len) nm) s in
                  if r1 \<noteq> uint str_len then Inr (snd (drop_client c s1))
                  else
                    (let (r2, s2) = call_writer c [0] s1 in
                     if r2 \<noteq> 1 then Inr (snd (drop_client c s2))
                     else ls_stream fs c s2))))"

definition list_files :: "client_t \<Rightarrow> 'e mfs_server \<Rightarrow> fault + 'e mfs_server" where
  "list_files c s =
     (case ls_total (files s) 0 of
        Inl e \<Rightarrow> Inl e
      | Inr total_size \<Rightarrow>
          if total_size \<le> data_bsize s then
            (case ls_fill (files s) (data_buffer s) 0 of
               Inl e \<Rightarrow> Inl e
             | Inr (buf, data_processed) \<Rightarrow>
                 map_sum id snd
                   (send_mfs_message
                      \<lparr>psize = 0, dsize = data_processed, op = RESPONSE_OF OP_LS,
                       path = Path_Buffer, data = Data_Buffer\<rparr>
                      c (s\<lparr>data_buffer := buf\<rparr>)))
          else
            (let msg = \<lparr>psize = 0, dsize = total_size, op = RESPONSE_OF OP_LS,
                        path = Null, data = Null\<rparr>;
                 (r, s1) = call_writer c (fill_headers msg) s
             in if r \<noteq> 9 then Inr (snd (drop_client c s1))
                else ls_stream (files s1) c s1))"

subsection \<open>The serve loop\<close>

definition noop_response :: mfs_message_t where
  "noop_response =
     \<lparr>psize = 0, dsize = 0, op = RESPONSE_OF OP_NOOP, path = Null, data = Null\<rparr>"

text \<open>The array the pointer of a message points to, as the helper functions take it.\<close>

definition pointee :: "'e mfs_server \<Rightarrow> ptr \<Rightarrow> byte list option" where
  "pointee s p =
     (case p of
        Null \<Rightarrow> None
      | Path_Buffer \<Rightarrow> Some (path_buffer s)
      | Data_Buffer \<Rightarrow> Some (data_buffer s)
      | Mem bs \<Rightarrow> Some bs)"

text \<open>
  The lookup of \<open>serve_clients\<close>:
  \<open>get_file_index(request.path, strlen(request.path, request.psize))\<close>.
\<close>

definition request_file_index :: "mfs_message_t \<Rightarrow> 'e mfs_server \<Rightarrow> fault + int" where
  "request_file_index req s =
     (case strlen (pointee s (path req)) (psize req) of
        Inl f \<Rightarrow> Inl f
      | Inr len \<Rightarrow> get_file_index (files s) (pointee s (path req)) len)"

text \<open>A call of the read or write handler of the slot \<open>file_index\<close>.\<close>

definition call_handler ::
  "(mfs_file_t \<Rightarrow> handler option) \<Rightarrow> (nat \<Rightarrow> call) \<Rightarrow> mfs_message_t \<Rightarrow> int \<Rightarrow> 'e mfs_server
     \<Rightarrow> fault + (mfs_message_t \<times> 'e mfs_server)" where
  "call_handler which ev req file_index s =
     (if file_index < 0 \<or> int (length (files s)) \<le> file_index then Inl Out_Of_Bounds
      else
        (case which (files s ! nat file_index) of
           None \<Rightarrow> Inl Null_Call
         | Some h \<Rightarrow>
             Inr (h req (path_buffer s) (data_buffer s),
                  s\<lparr>calls := calls s @ [ev (nat file_index)]\<rparr>)))"

text \<open>The \<open>switch\<close> on the opcode, for the client of slot \<open>i\<close>.\<close>

definition dispatch :: "mfs_message_t \<Rightarrow> int \<Rightarrow> nat \<Rightarrow> 'e mfs_server \<Rightarrow> fault + 'e mfs_server" where
  "dispatch req file_index i s =
     (if op req = OP_ERROR then
        map_sum id snd (send_mfs_message noop_response (client (clients s ! i)) s)
      else if op req = OP_LS then list_files (client (clients s ! i)) s
      else if op req = OP_NOOP then
        map_sum id snd (send_mfs_message noop_response (client (clients s ! i)) s)
      else if op req = OP_READ then
        (case call_handler reader_f Call_reader_f req file_index s of
           Inl f \<Rightarrow> Inl f
         | Inr (msg, s1) \<Rightarrow> map_sum id snd (send_mfs_message msg (client (clients s1 ! i)) s1))
      else if op req = OP_WRITE then
        (case call_handler writer_f Call_writer_f req file_index s of
           Inl f \<Rightarrow> Inl f
         | Inr (msg, s1) \<Rightarrow> map_sum id snd (send_mfs_message msg (client (clients s1 ! i)) s1))
      else if op req < MFS_RESERVED_OP_RANGE then
        map_sum id snd (send_mfs_message noop_response (client (clients s ! i)) s)
      else map_sum id snd (send_mfs_error req (client (clients s ! i)) 3003 s))"

text \<open>What \<open>serve_clients\<close> does with a request that was read.\<close>

definition handle_request :: "mfs_message_t \<Rightarrow> nat \<Rightarrow> 'e mfs_server \<Rightarrow> fault + 'e mfs_server" where
  "handle_request req i s =
     (let (now, s1) = call_millis s;
          s2 = s1\<lparr>clients := (clients s1)
                   [i := (clients s1 ! i)\<lparr>timer_end := now + ucast (timer_ms s1)\<rparr>]\<rparr>
      in case request_file_index req s2 of
           Inl f \<Rightarrow> Inl f
         | Inr file_index \<Rightarrow>
             if file_index = - 1 \<and> \<not> (op req = OP_LS \<or> op req = OP_NOOP)
             then map_sum id snd (send_mfs_error req (client (clients s2 ! i)) 1000 s2)
             else dispatch req file_index i s2)"

text \<open>The body of the loop of \<open>serve_clients\<close> for the slot \<open>i\<close>.\<close>

definition serve_visit :: "nat \<Rightarrow> 'e mfs_server \<Rightarrow> (fault + 'e mfs_server) option" where
  "serve_visit i s =
     (if client (clients s ! i) = 0 then Some (Inr s)
      else
        let (now, s1) = call_millis s in
        if timer_end (clients s1 ! i) \<le> now then
          (case send_mfs_error noop_response (client (clients s1 ! i)) 3000 s1 of
             Inl f \<Rightarrow> Some (Inl f)
           | Inr (r, s2) \<Rightarrow> Some (Inr (snd (drop_client (client (clients s2 ! i)) s2))))
        else
          let (avail, s2) = call_available (client (clients s1 ! i)) s1 in
          if 9 \<le> avail then
            (case read_mfs_message (client (clients s2 ! i)) s2 of
               None \<Rightarrow> None
             | Some (Inl f) \<Rightarrow> Some (Inl f)
             | Some (Inr (client_request, s3)) \<Rightarrow>
                 if data client_request = Null \<and> path client_request = Null
                    \<and> dsize client_request = 0 \<and> psize client_request = 0
                 then Some (Inr (snd (drop_client (client (clients s3 ! i)) s3)))
                 else Some (handle_request client_request i s3))
          else Some (Inr s2))"

fun serve_slots :: "nat list \<Rightarrow> 'e mfs_server \<Rightarrow> (fault + 'e mfs_server) option" where
  "serve_slots [] s = Some (Inr s)"
| "serve_slots (i # is) s =
     (case serve_visit i s of
        None \<Rightarrow> None
      | Some (Inl f) \<Rightarrow> Some (Inl f)
      | Some (Inr s1) \<Rightarrow> serve_slots is s1)"

text \<open>\<open>clients_len\<close> never changes, so the loop visits the slots \<open>0, \<dots>, clients_len - 1\<close>.\<close>

definition serve_clients :: "'e mfs_server \<Rightarrow> (fault + 'e mfs_server) option" where
  "serve_clients s = serve_slots [0..<length (clients s)] s"

section \<open>A transport for concrete runs\<close>

text \<open>
  One peer: \<open>inbox\<close> holds the bytes it has sent and the server has not read, \<open>clock\<close>
  the time in milliseconds. A read of \<open>n\<close> bytes returns them when the inbox holds
  that many; otherwise it fails, unless the peer is \<open>steady\<close>: then zero bytes keep
  arriving and every read is served in full. Writes are accepted in full.
\<close>

record sim =
  inbox :: "byte list"
  clock :: "64 word"

definition sim_reader :: "bool \<Rightarrow> sim \<Rightarrow> client_t \<Rightarrow> nat \<Rightarrow> byte list option \<times> sim" where
  "sim_reader steady w c n =
     (if n \<le> length (inbox w) then (Some (take n (inbox w)), w\<lparr>inbox := drop n (inbox w)\<rparr>)
      else if steady then
        (Some (inbox w @ replicate (n - length (inbox w)) 0), w\<lparr>inbox := []\<rparr>)
      else (None, w))"

definition sim_writer :: "sim \<Rightarrow> client_t \<Rightarrow> byte list \<Rightarrow> int \<times> sim" where
  "sim_writer w c bs = (int (length bs), w)"

definition sim_available :: "sim \<Rightarrow> client_t \<Rightarrow> 64 word \<times> sim" where
  "sim_available w c = (if c = 0 then 0 else of_nat (length (inbox w)), w)"

definition sim_server ::
  "bool \<Rightarrow> nat \<Rightarrow> nat \<Rightarrow> client_handlers_t list \<Rightarrow> mfs_file_t list \<Rightarrow> byte list \<Rightarrow> 64 word
     \<Rightarrow> sim mfs_server" where
  "sim_server steady pcap dcap cs fs inb t =
     \<lparr>path_buffer = replicate pcap 0, data_buffer = replicate dcap 0,
      path_bsize = of_nat pcap, data_bsize = of_nat dcap,
      clients = cs, files = fs,
      client_writer = sim_writer, client_reader = sim_reader steady,
      client_killer = (\<lambda>w c. w), client_available = sim_available,
      accept_client = (\<lambda>w. (0, w)), millis = (\<lambda>w. (clock w, w)),
      timer_ms = 20000, hard_limit = 10000, char_signed = False,
      world = \<lparr>inbox = inb, clock = t\<rparr>, calls = []\<rparr>"

text \<open>
  The data of the runs: a file named \<open>hi\<close> whose handlers answer one byte \<open>X\<close>, a
  free slot, a populated slot whose name is the empty string, and two clients.
\<close>

definition hi :: "byte list" where
  "hi = [0x68, 0x69, 0]"

definition echo :: handler where
  "echo m pb db =
     \<lparr>psize = psize m, dsize = 1, op = RESPONSE_OF (op m),
      path = Mem (take (unat (psize m)) pb), data = Mem [0x58]\<rparr>"

definition f_hi :: mfs_file_t where
  "f_hi = \<lparr>file_path = Some hi, path_size = 3, writer_f = Some echo, reader_f = Some echo\<rparr>"

definition f_free :: mfs_file_t where
  "f_free = \<lparr>file_path = None, path_size = 0, writer_f = None, reader_f = None\<rparr>"

definition f_unnamed :: mfs_file_t where
  "f_unnamed = \<lparr>file_path = Some [0], path_size = 1, writer_f = Some echo, reader_f = Some echo\<rparr>"

definition c7 :: client_handlers_t where
  "c7 = \<lparr>client = 7, timer_end = 5000\<rparr>"

definition c9 :: client_handlers_t where
  "c9 = \<lparr>client = 9, timer_end = 5000\<rparr>"

text \<open>
  Requests on the wire: a header that advertises a path of 10001 bytes, and a NOOP.
\<close>

definition over_limit_inbox :: "byte list" where
  "over_limit_inbox = [0x11, 0x27, 0, 0, 0, 0, 0, 0, 1, 1, 1, 1]"

definition noop_inbox :: "byte list" where
  "noop_inbox = [0, 0, 0, 0, 0, 0, 0, 0, 0]"

text \<open>
  Opcode 29 and opcode 30 on the path \<open>hi\<close> with its terminator, opcode 29 with
  no path, and opcode 29 on the path \<open>no\<close> with its terminator.
\<close>

definition reserved_inbox :: "byte list" where
  "reserved_inbox = [3, 0, 0, 0, 0, 0, 0, 0, 29, 0x68, 0x69, 0]"

definition illegal_inbox :: "byte list" where
  "illegal_inbox = [3, 0, 0, 0, 0, 0, 0, 0, 30, 0x68, 0x69, 0]"

definition reserved_no_path_inbox :: "byte list" where
  "reserved_no_path_inbox = [0, 0, 0, 0, 0, 0, 0, 0, 29]"

definition reserved_unknown_inbox :: "byte list" where
  "reserved_unknown_inbox = [3, 0, 0, 0, 0, 0, 0, 0, 29, 0x6E, 0x6F, 0]"

text \<open>
  A WRITE with 100 bytes of data, a READ of the path \<open>no\<close>, and a READ with a path of
  ten bytes.
\<close>

definition oversize_inbox :: "byte list" where
  "oversize_inbox = [0, 0, 0, 0, 100, 0, 0, 0, 2] @ replicate 100 1"

definition read_no_inbox :: "byte list" where
  "read_no_inbox = [2, 0, 0, 0, 0, 0, 0, 0, 1, 0x6E, 0x6F]"

definition long_path_inbox :: "byte list" where
  "long_path_inbox = [10, 0, 0, 0, 0, 0, 0, 0, 1] @ replicate 10 0x61"

section \<open>Notions the properties use\<close>

text \<open>
  The capacities the constructor was given are those of the two arrays, and the data
  buffer holds the two bytes of an error code, which \<open>send_mfs_error\<close> writes there
  without a check.
\<close>

definition buffers_ok :: "'e mfs_server \<Rightarrow> bool" where
  "buffers_ok s \<longleftrightarrow>
     unat (path_bsize s) \<le> length (path_buffer s)
     \<and> unat (data_bsize s) \<le> length (data_buffer s)
     \<and> 2 \<le> unat (data_bsize s)"

text \<open>
  In the world \<open>w\<close> the transport delivers the bytes \<open>bs\<close> to a read of that many
  bytes, or takes the bytes \<open>bs\<close> of a write in full; \<open>w'\<close> is the world after it.
\<close>

definition delivers :: "'e mfs_server \<Rightarrow> 'e \<Rightarrow> client_t \<Rightarrow> byte list \<Rightarrow> 'e \<Rightarrow> bool" where
  "delivers s w c bs w' \<longleftrightarrow> client_reader s w c (length bs) = (Some bs, w')"

definition accepts :: "'e mfs_server \<Rightarrow> 'e \<Rightarrow> client_t \<Rightarrow> byte list \<Rightarrow> 'e \<Rightarrow> bool" where
  "accepts s w c bs w' \<longleftrightarrow> client_writer s w c bs = (int (length bs), w')"

text \<open>The transport never fails a read from, or a write to, the client \<open>c\<close>.\<close>

definition always_delivers :: "'e mfs_server \<Rightarrow> client_t \<Rightarrow> bool" where
  "always_delivers s c \<longleftrightarrow>
     (\<forall>w n. \<exists>bs w'. client_reader s w c n = (Some bs, w') \<and> length bs = n)"

definition always_accepts :: "'e mfs_server \<Rightarrow> client_t \<Rightarrow> bool" where
  "always_accepts s c \<longleftrightarrow>
     (\<forall>w bs. \<exists>w'. client_writer s w c bs = (int (length bs), w'))"

definition deadlines :: "'e mfs_server \<Rightarrow> 64 word list" where
  "deadlines s = map timer_end (clients s)"

section \<open>The header codec: properties\<close>

lemma and_ff: "(ucast ((w::32 word) AND 0xFF) :: byte) = ucast w"
proof -
  have m: "(0xFF::32 word) = mask 8" by (simp add: mask_eq_exp_minus_1)
  show ?thesis unfolding m by (rule bit_word_eqI) (auto simp: bit_simps)
qed

lemma compose4:
  fixes b0 b1 b2 b3 :: byte
  defines "w \<equiv> (0::32 word) OR ucast b0 OR push_bit 8 (ucast b1)
                   OR push_bit 16 (ucast b2) OR push_bit 24 (ucast b3)"
  shows "ucast w = b0" "ucast (drop_bit 8 w) = b1"
    "ucast (drop_bit 16 w) = b2" "ucast (drop_bit 24 w) = b3"
  unfolding w_def
  by (rule bit_word_eqI; auto simp: bit_simps dest: bit_imp_le_length)+

text \<open>
  Where plain \<open>char\<close> is unsigned, decoding a 9-byte buffer and encoding the result
  gives the buffer back.
\<close>

lemma header_roundtrip_unsigned_char:
  assumes "length b = 9"
  shows "fill_headers (read_headers False b m) = b"
proof -
  from assms obtain b0 b1 b2 b3 b4 b5 b6 b7 b8 where b: "b = [b0, b1, b2, b3, b4, b5, b6, b7, b8]"
    by (auto simp: length_Suc_conv eval_nat_numeral)
  show ?thesis
    unfolding b using compose4[of b0 b1 b2 b3] compose4[of b4 b5 b6 b7]
    by (simp add: fill_headers_def read_headers_def char_to_uint_def and_ff)
qed

text \<open>
  Claim C3: for every 9-byte buffer \<open>b\<close>, \<open>fill_headers\<close> applied to what
  \<open>read_headers\<close> decodes from \<open>b\<close> gives \<open>b\<close> back. Where plain \<open>char\<close> is signed,
  \<open>(unsigned int)buffer[k]\<close> extends the sign of a byte of 0x80 or more over the
  higher bytes of the length: the header 80 00 00 00 00 00 00 00 00 decodes to
  \<open>psize = 0xFFFFFF80\<close> and is encoded as 80 FF FF FF 00 00 00 00 00.
\<close>

theorem read_headers_sign_extension:
  "fill_headers (read_headers True [0x80, 0, 0, 0, 0, 0, 0, 0, 0] fresh_msg)
     = [0x80, 0xFF, 0xFF, 0xFF, 0, 0, 0, 0, 0]
   \<and> psize (read_headers True [0x80, 0, 0, 0, 0, 0, 0, 0, 0] fresh_msg) = 0xFFFFFF80"
  by (simp add: fill_headers_def read_headers_def char_to_uint_def fresh_msg_def)

section \<open>The file lookup: properties\<close>

lemma nul_scan_found:
  "i \<le> k \<Longrightarrow> k < n \<Longrightarrow> k < length p \<Longrightarrow> p ! k = 0 \<Longrightarrow> nul_scan (Some p) n i = Inr True"
proof (induction "k - i" arbitrary: i)
  case 0
  then have "i = k" by simp
  with 0 show ?case by (subst nul_scan.simps) (simp add: peek_def)
next
  case (Suc d)
  then have lt: "i < k" by simp
  with Suc have ih: "nul_scan (Some p) n (Suc i) = Inr True" by simp
  from lt Suc.prems show ?case
    by (subst nul_scan.simps) (simp add: peek_def ih)
qed

lemma memcmp_loop_same:
  "memcmp_loop buf1 buf2 n i = Inr 0 \<Longrightarrow> i \<le> k \<Longrightarrow> k < n \<Longrightarrow>
     \<exists>c. peek buf1 k = Inr c \<and> peek buf2 k = Inr c"
proof (induction buf1 buf2 n i rule: memcmp_loop.induct)
  case (1 buf1 buf2 n i)
  from "1.prems" have lt: "i < n" by simp
  from "1.prems"(1) lt obtain a where a: "peek buf1 i = Inr a" "peek buf2 i = Inr a"
    and rest: "memcmp_loop buf1 buf2 n (Suc i) = Inr 0"
    by (subst (asm) memcmp_loop.simps) (auto split: sum.splits if_splits)
  show ?case
  proof (cases "k = i")
    case True
    with a show ?thesis by simp
  next
    case False
    with "1.prems" have "Suc i \<le> k" by simp
    from "1.IH"[OF lt a(1) a(2) _ rest this "1.prems"(3)] show ?thesis by simp
  qed
qed

lemma file_scan_found:
  "file_scan fs pth n i = Inr r \<Longrightarrow> r \<noteq> - 1 \<Longrightarrow>
     int i \<le> r \<and> nat r < length fs
     \<and> (\<exists>len. strlen (file_path (fs ! nat r)) (path_size (fs ! nat r)) = Inr len
              \<and> memcmp pth (file_path (fs ! nat r)) n len = Inr 0)"
proof (induction fs pth n i rule: file_scan.induct)
  case (1 fs pth n i)
  from "1.prems" have lt: "i < length fs"
    by (subst (asm) file_scan.simps) (auto split: if_splits)
  from "1.prems"(1) lt obtain len m where
    len: "strlen (file_path (fs ! i)) (path_size (fs ! i)) = Inr len"
    and m: "memcmp pth (file_path (fs ! i)) n len = Inr m"
    and res: "(m \<noteq> 0 \<and> file_scan fs pth n (Suc i) = Inr r) \<or> (m = 0 \<and> r = int i)"
    by (subst (asm) file_scan.simps) (auto split: sum.splits if_splits)
  from res show ?case
  proof
    assume a: "m \<noteq> 0 \<and> file_scan fs pth n (Suc i) = Inr r"
    from "1.IH"[OF lt len m _ _ "1.prems"(2)] a show ?thesis by auto
  next
    assume "m = 0 \<and> r = int i"
    with lt len m show ?thesis by auto
  qed
qed

lemma peek_Inr: "peek buf k = Inr c \<longleftrightarrow> k < length (received buf) \<and> received buf ! k = c"
  by (auto simp: peek_def received_def split: option.splits)

lemma take_eq_of_peek:
  assumes "\<forall>k<N. \<exists>c. peek a k = Inr c \<and> peek b k = Inr c"
  shows "N \<le> length (received a) \<and> N \<le> length (received b)
         \<and> take N (received b) = take N (received a)"
proof -
  from assms have nth: "\<forall>k<N. k < length (received a) \<and> k < length (received b)
      \<and> received a ! k = received b ! k"
    by (auto simp: peek_Inr)
  have la: "N \<le> length (received a)"
  proof (cases N)
    case (Suc m)
    with nth have "m < length (received a)" by blast
    with Suc show ?thesis by simp
  qed simp
  have lb: "N \<le> length (received b)"
  proof (cases N)
    case (Suc m)
    with nth have "m < length (received b)" by blast
    with Suc show ?thesis by simp
  qed simp
  have "take N (received b) = take N (received a)"
    using la lb nth by (intro nth_equalityI) auto
  with la lb show ?thesis by simp
qed

lemmas lookup_eval =
  get_file_index_def strlen_def memcmp_def peek_def nul_scan.simps file_scan.simps
  strlen_loop.simps memcmp_loop.simps

text \<open>
  Claim C9: \<open>get_file_index(path, psize)\<close> returns -1 whenever the path has a zero
  byte among its first \<open>psize\<close> bytes; and it returns an index \<open>r\<close> other than -1 only
  if the name stored in slot \<open>r\<close> has string length \<open>psize\<close> and its first \<open>psize\<close>
  bytes are those of the path.
\<close>

theorem get_file_index_match:
  "(k < unat n \<and> peek pth k = Inr 0 \<longrightarrow> get_file_index fs pth n = Inr (- 1))
   \<and> (get_file_index fs pth n = Inr r \<and> r \<noteq> - 1 \<longrightarrow>
        0 \<le> r \<and> nat r < length fs
        \<and> strlen (file_path (fs ! nat r)) (path_size (fs ! nat r)) = Inr n
        \<and> unat n \<le> length (received pth)
        \<and> unat n \<le> length (received (file_path (fs ! nat r)))
        \<and> take (unat n) (received (file_path (fs ! nat r))) = take (unat n) (received pth))"
proof (intro conjI impI)
  assume "k < unat n \<and> peek pth k = Inr 0"
  then have k: "k < unat n" "k < length (received pth)" "received pth ! k = 0"
    by (auto simp: peek_Inr)
  then obtain p where p: "pth = Some p" by (cases pth) (auto simp: received_def)
  with k have "nul_scan pth (unat n) 0 = Inr True"
    by (auto intro!: nul_scan_found simp: received_def)
  then show "get_file_index fs pth n = Inr (- 1)" by (simp add: get_file_index_def)
next
  assume a: "get_file_index fs pth n = Inr r \<and> r \<noteq> - 1"
  then have scan: "file_scan fs pth n 0 = Inr r" and r: "r \<noteq> - 1"
    by (auto simp: get_file_index_def split: sum.splits if_splits)
  from file_scan_found[OF scan r] obtain len where
    r0: "0 \<le> r" and rl: "nat r < length fs"
    and len: "strlen (file_path (fs ! nat r)) (path_size (fs ! nat r)) = Inr len"
    and m: "memcmp pth (file_path (fs ! nat r)) n len = Inr 0"
    by auto
  from m have eq: "len = n"
    and loop: "memcmp_loop pth (file_path (fs ! nat r)) (unat n) 0 = Inr 0"
    by (auto simp: memcmp_def split: if_splits)
  have "\<forall>k<unat n. \<exists>c. peek pth k = Inr c \<and> peek (file_path (fs ! nat r)) k = Inr c"
    using memcmp_loop_same[OF loop] by simp
  from take_eq_of_peek[OF this] r0 rl len eq
  show "0 \<le> r" "nat r < length fs"
    "strlen (file_path (fs ! nat r)) (path_size (fs ! nat r)) = Inr n"
    "unat n \<le> length (received pth)"
    "unat n \<le> length (received (file_path (fs ! nat r)))"
    "take (unat n) (received (file_path (fs ! nat r))) = take (unat n) (received pth)"
    by simp_all
qed

theorem get_file_index_match_witness:
  "get_file_index [f_hi] (Some [0x68, 0]) 2 = Inr (- 1)
   \<and> get_file_index [f_hi] (Some [0x68, 0x69]) 2 = Inr 0
   \<and> strlen (file_path ([f_hi] ! 0)) (path_size ([f_hi] ! 0)) = Inr 2
   \<and> take 2 (received (file_path ([f_hi] ! 0))) = take 2 (received (Some [0x68, 0x69]))"
proof -
  have h1: "(1::nat) < unat (2 :: 32 word) \<and> peek (Some [0x68, 0]) 1 = Inr 0"
    by (simp add: peek_def)
  have h2: "get_file_index [f_hi] (Some [0x68, 0x69]) 2 = Inr 0 \<and> (0::int) \<noteq> - 1"
    by (simp add: lookup_eval f_hi_def hi_def)
  from get_file_index_match[of 1 2 "Some [0x68, 0]" "[f_hi]" 0] h1
  have a: "get_file_index [f_hi] (Some [0x68, 0]) 2 = Inr (- 1)" by blast
  from get_file_index_match[of 0 2 "Some [0x68, 0x69]" "[f_hi]" 0] h2
  have b: "strlen (file_path ([f_hi] ! nat 0)) (path_size ([f_hi] ! nat 0)) = Inr 2
     \<and> take (unat (2 :: 32 word)) (received (file_path ([f_hi] ! nat 0)))
         = take (unat (2 :: 32 word)) (received (Some [0x68, 0x69]))"
    by blast
  from a b h2 show ?thesis by simp
qed

section \<open>The server: auxiliary facts\<close>

lemma client_slot_Some:
  "client_slot c cs = Some i \<Longrightarrow> i < length cs \<and> client (cs ! i) = c"
proof (induction cs arbitrary: i)
  case Nil
  then show ?case by simp
next
  case (Cons h hs)
  then show ?case by (auto split: if_splits)
qed

text \<open>
  The search of \<open>drop_client\<close> finds the slot \<open>i\<close> exactly when \<open>i\<close> is the first
  slot that holds the identifier.
\<close>

lemma client_slot_first:
  "i < length cs \<Longrightarrow> client (cs ! i) = c \<Longrightarrow> \<forall>j<i. client (cs ! j) \<noteq> c \<Longrightarrow>
     client_slot c cs = Some i"
proof (induction cs arbitrary: i)
  case Nil
  then show ?case by simp
next
  case (Cons h hs)
  show ?case
  proof (cases i)
    case 0
    with Cons.prems show ?thesis by simp
  next
    case (Suc k)
    from Cons.prems(3) Suc have h: "client h \<noteq> c" by auto
    from Cons.prems Suc have k: "k < length hs" "client (hs ! k) = c" by simp_all
    have "\<forall>j<k. client (hs ! j) \<noteq> c"
    proof (intro allI impI)
      fix j assume "j < k"
      with Suc have "Suc j < i" by simp
      with Cons.prems(3) have "client ((h # hs) ! Suc j) \<noteq> c" by blast
      then show "client (hs ! j) \<noteq> c" by simp
    qed
    from Cons.IH[OF k this] h Suc show ?thesis by auto
  qed
qed

lemma client_slot_iff:
  "client_slot c cs = Some i \<longleftrightarrow>
     i < length cs \<and> client (cs ! i) = c \<and> (\<forall>j<i. client (cs ! j) \<noteq> c)"
proof
  assume "client_slot c cs = Some i"
  then show "i < length cs \<and> client (cs ! i) = c \<and> (\<forall>j<i. client (cs ! j) \<noteq> c)"
  proof (induction cs arbitrary: i)
    case Nil
    then show ?case by simp
  next
    case (Cons h hs)
    show ?case
    proof (cases "c = client h")
      case True
      with Cons.prems show ?thesis by simp
    next
      case False
      with Cons.prems obtain k where k: "client_slot c hs = Some k" "i = Suc k" by auto
      from Cons.IH[OF k(1)] have ih: "k < length hs" "client (hs ! k) = c"
        "\<forall>j<k. client (hs ! j) \<noteq> c"
        by simp_all
      have "\<forall>j<Suc k. client ((h # hs) ! j) \<noteq> c"
      proof (intro allI impI)
        fix j assume j: "j < Suc k"
        show "client ((h # hs) ! j) \<noteq> c"
        proof (cases j)
          case 0
          with False show ?thesis by simp
        next
          case (Suc m)
          with j ih(3) show ?thesis by simp
        qed
      qed
      with ih k(2) show ?thesis by simp
    qed
  qed
next
  assume "i < length cs \<and> client (cs ! i) = c \<and> (\<forall>j<i. client (cs ! j) \<noteq> c)"
  then show "client_slot c cs = Some i" by (simp add: client_slot_first)
qed

lemma drop_client_zero [simp]: "drop_client 0 s = (0, s)"
  by (simp add: drop_client_def)

lemma drop_client_found:
  "c \<noteq> 0 \<Longrightarrow> client_slot c (clients s) = Some i \<Longrightarrow>
   drop_client c s =
     (0, s\<lparr>world := client_killer s (world s) c, calls := calls s @ [Call_close c],
            clients := (clients s)[i := (clients s ! i)\<lparr>client := 0\<rparr>]\<rparr>)"
  by (simp add: drop_client_def call_killer_def client_slot_Some)


lemma region_frame [simp]:
  "region (s\<lparr>world := w\<rparr>) p n = region s p n"
  "region (s\<lparr>calls := cs\<rparr>) p n = region s p n"
  "region (s\<lparr>clients := cl\<rparr>) p n = region s p n"
  by (cases p; simp add: region_def)+

lemma region_data_frame:
  "p \<noteq> Data_Buffer \<Longrightarrow> region (s\<lparr>data_buffer := b\<rparr>) p n = region s p n"
  by (cases p; simp add: region_def)

lemma send_mfs_message_accepted:
  assumes "client_writer s (world s) c (fill_headers msg) = (9, w1)"
    and "region s (path msg) (unat (psize msg)) = Inr pb"
    and "client_writer s w1 c pb = (uint (psize msg), w2)"
    and "region s (data msg) (unat (dsize msg)) = Inr db"
    and "client_writer s w2 c db = (uint (dsize msg), w3)"
  shows "send_mfs_message msg c s =
           Inr (0, s\<lparr>world := w3,
                      calls := calls s @ [Call_write c (fill_headers msg), Call_write c pb,
                                          Call_write c db]\<rparr>)"
  using assms
  by (simp add: send_mfs_message_def call_writer_def write_from_def region_frame)

lemma error_header: "fill_headers (m\<lparr>op := RESPONSE_OF OP_ERROR, dsize := 2, data := Data_Buffer\<rparr>)
   = take 4 (fill_headers m) @ [2, 0, 0, 0, 0x84]"
  by (simp add: fill_headers_def RESPONSE_OF_def OP_ERROR_def)

lemma send_mfs_error_accepted:
  assumes len: "2 \<le> length (data_buffer s)"
    and hdr: "client_writer s (world s) c (take 4 (fill_headers msg) @ [2, 0, 0, 0, 0x84]) = (9, w1)"
    and pth: "region s (path msg) (unat (psize msg)) = Inr pb" "path msg \<noteq> Data_Buffer"
    and wp: "client_writer s w1 c pb = (uint (psize msg), w2)"
    and wd: "client_writer s w2 c [ucast (code AND 0xFF), ucast (drop_bit 8 code AND 0xFF)] = (2, w3)"
  shows "send_mfs_error msg c code s =
           Inr (0, s\<lparr>world := w3,
                      calls := calls s @ [Call_write c (take 4 (fill_headers msg) @ [2, 0, 0, 0, 0x84]),
                                          Call_write c pb,
                                          Call_write c [ucast (code AND 0xFF), ucast (drop_bit 8 code AND 0xFF)]],
                      data_buffer := (data_buffer s)[0 := ucast (code AND 0xFF), 1 := ucast (drop_bit 8 code AND 0xFF)]\<rparr>)"
proof -
  let ?s1 = "s\<lparr>data_buffer := (data_buffer s)
                     [0 := 0, 1 := 0,
                      0 := ucast (code AND 0xFF),
                      1 := ucast (drop_bit 8 code AND 0xFF)]\<rparr>"
  let ?m = "msg\<lparr>op := RESPONSE_OF OP_ERROR, dsize := 2, data := Data_Buffer\<rparr>"
  from len obtain a b rest where db: "data_buffer s = a # b # rest"
    by (cases "data_buffer s"; simp) (rename_tac x xs, case_tac xs; simp)
  have upd: "(data_buffer s)[0 := 0, 1 := 0, 0 := ucast (code AND 0xFF), 1 := ucast (drop_bit 8 code AND 0xFF)]
     = (data_buffer s)[0 := ucast (code AND 0xFF), 1 := ucast (drop_bit 8 code AND 0xFF)]"
    by (simp add: db)
  have tk: "take 2 ((data_buffer s)[0 := ucast (code AND 0xFF), 1 := ucast (drop_bit 8 code AND 0xFF)])
     = [ucast (code AND 0xFF), ucast (drop_bit 8 code AND 0xFF)]"
    by (simp add: db)
  have r1: "region ?s1 (path ?m) (unat (psize ?m)) = Inr pb"
    using pth by (simp add: region_data_frame)
  have r2: "region ?s1 (data ?m) (unat (dsize ?m)) = Inr [ucast (code AND 0xFF), ucast (drop_bit 8 code AND 0xFF)]"
    by (simp add: region_def db)
  have "send_mfs_message ?m c ?s1 = Inr (0, ?s1\<lparr>world := w3,
                      calls := calls ?s1 @ [Call_write c (fill_headers ?m), Call_write c pb,
                                          Call_write c [ucast (code AND 0xFF), ucast (drop_bit 8 code AND 0xFF)]]\<rparr>)"
    by (rule send_mfs_message_accepted[where ?w1.0 = w1 and ?w2.0 = w2])
       (use hdr wp wd r1 r2 in \<open>simp_all add: error_header\<close>)
  then show ?thesis
    by (simp add: send_mfs_error_def error_header db Let_def)
qed

lemma deadlines_frame [simp]:
  "deadlines (s\<lparr>world := w\<rparr>) = deadlines s"
  "deadlines (s\<lparr>calls := cs\<rparr>) = deadlines s"
  "deadlines (s\<lparr>data_buffer := b\<rparr>) = deadlines s"
  "deadlines (s\<lparr>path_buffer := b\<rparr>) = deadlines s"
  by (simp_all add: deadlines_def)

lemma drop_client_deadlines [simp]: "deadlines (snd (drop_client c s)) = deadlines s"
proof (cases "c = 0")
  case True
  then show ?thesis by simp
next
  case False
  show ?thesis
  proof (cases "client_slot c (clients s)")
    case None
    with False show ?thesis by (simp add: drop_client_def)
  next
    case (Some i)
    from client_slot_Some[OF Some] have "i < length (clients s)" by simp
    then have "(map timer_end (clients s))[i := timer_end (clients s ! i)] = map timer_end (clients s)"
      by (simp add: list_update_same_conv)
    with False Some show ?thesis
      by (simp add: drop_client_def call_killer_def deadlines_def map_update)
  qed
qed

lemma call_writer_deadlines [simp]: "deadlines (snd (call_writer c bs s)) = deadlines s"
  by (simp add: call_writer_def split: prod.splits)

lemma write_from_deadlines:
  "write_from c p n s = Inr (r, s') \<Longrightarrow> deadlines s' = deadlines s"
  by (auto simp: write_from_def split: sum.splits dest: arg_cong[where f = "\<lambda>x. deadlines (snd x)"])

lemma send_mfs_message_deadlines:
  assumes "send_mfs_message msg c s = Inr (r, s')"
  shows "deadlines s' = deadlines s"
proof -
  obtain r1 s1 where w1: "call_writer c (fill_headers msg) s = (r1, s1)" by (cases "call_writer c (fill_headers msg) s")
  then have d1: "deadlines s1 = deadlines s"
    using call_writer_deadlines[of c "fill_headers msg" s] by simp
  show ?thesis
  proof (cases "r1 \<noteq> 9")
    case True
    with assms w1 d1 show ?thesis by (auto simp: send_mfs_message_def)
  next
    case False
    with assms w1 obtain r2 s2 where w2: "write_from c (path msg) (psize msg) s1 = Inr (r2, s2)"
      by (auto simp: send_mfs_message_def split: sum.splits)
    from write_from_deadlines[OF w2] d1 have d2: "deadlines s2 = deadlines s" by simp
    show ?thesis
    proof (cases "r2 \<noteq> uint (psize msg)")
      case True
      with assms w1 w2 False d2 show ?thesis by (auto simp: send_mfs_message_def)
    next
      case f2: False
      with assms w1 w2 False obtain r3 s3 where w3: "write_from c (data msg) (dsize msg) s2 = Inr (r3, s3)"
        by (auto simp: send_mfs_message_def split: sum.splits)
      from write_from_deadlines[OF w3] d2 have d3: "deadlines s3 = deadlines s" by simp
      from assms w1 w2 w3 False f2 d3 show ?thesis
        by (auto simp: send_mfs_message_def split: if_splits)
    qed
  qed
qed

lemma send_mfs_error_deadlines:
  "send_mfs_error msg c code s = Inr (r, s') \<Longrightarrow> deadlines s' = deadlines s"
  by (auto simp: send_mfs_error_def Let_def split: if_splits dest!: send_mfs_message_deadlines)

lemma ls_stream_deadlines:
  "ls_stream fs c s = Inr s' \<Longrightarrow> deadlines s' = deadlines s"
proof (induction fs arbitrary: s)
  case Nil
  then show ?case by simp
next
  case (Cons f fs)
  from Cons.prems obtain n where n: "strlen (file_path f) (path_size f) = Inr n"
    by (auto split: sum.splits)
  show ?case
  proof (cases "n = 0")
    case True
    with Cons n show ?thesis by simp
  next
    case False
    with Cons.prems n obtain nm where nm: "file_path f = Some nm"
      by (auto split: option.splits)
    obtain r1 s1 where w1: "call_writer c (take (unat n) nm) s = (r1, s1)"
      by (cases "call_writer c (take (unat n) nm) s")
    then have d1: "deadlines s1 = deadlines s"
      using call_writer_deadlines[of c "take (unat n) nm" s] by simp
    obtain r2 s2 where w2: "call_writer c [0] s1 = (r2, s2)"
      by (cases "call_writer c [0] s1")
    then have d2: "deadlines s2 = deadlines s"
      using call_writer_deadlines[of c "[0]" s1] d1 by simp
    from Cons.prems n False nm w1 w2 d1 d2 Cons.IH[of s2] show ?thesis
      by (auto split: if_splits)
  qed
qed

lemma call_writer_deadlines':
  "call_writer c bs s = (r, s1) \<Longrightarrow> deadlines s1 = deadlines s"
  using call_writer_deadlines[of c bs s] by simp

lemma list_files_deadlines:
  assumes "list_files c s = Inr s'"
  shows "deadlines s' = deadlines s"
proof -
  from assms obtain total where t: "ls_total (files s) 0 = Inr total"
    by (auto simp: list_files_def split: sum.splits)
  show ?thesis
  proof (cases "total \<le> data_bsize s")
    case True
    with assms t obtain buf dp r where
      "send_mfs_message \<lparr>psize = 0, dsize = dp, op = RESPONSE_OF OP_LS,
                       path = Path_Buffer, data = Data_Buffer\<rparr> c (s\<lparr>data_buffer := buf\<rparr>) = Inr (r, s')"
      by (auto simp: list_files_def map_sum_def split: sum.splits prod.splits)
    from send_mfs_message_deadlines[OF this] show ?thesis by simp
  next
    case False
    let ?m = "\<lparr>psize = 0, dsize = total, op = RESPONSE_OF OP_LS, path = Null, data = Null\<rparr>"
    obtain r s1 where w: "call_writer c (fill_headers ?m) s = (r, s1)"
      by (cases "call_writer c (fill_headers ?m) s")
    note d1 = call_writer_deadlines'[OF w]
    from assms t False w have "s' = snd (drop_client c s1) \<or> ls_stream (files s1) c s1 = Inr s'"
      by (auto simp: list_files_def Let_def split: if_splits)
    with d1 show ?thesis by (auto dest: ls_stream_deadlines)
  qed
qed

lemma call_handler_deadlines:
  "call_handler which ev req fi s = Inr (m, s') \<Longrightarrow> deadlines s' = deadlines s"
  by (auto simp: call_handler_def deadlines_def split: if_splits option.splits)

lemma sent_deadlines:
  "map_sum id snd (send_mfs_message msg c s) = Inr s' \<Longrightarrow> deadlines s' = deadlines s"
  "map_sum id snd (send_mfs_error msg c code s) = Inr s' \<Longrightarrow> deadlines s' = deadlines s"
  by (cases "send_mfs_message msg c s"; auto dest: send_mfs_message_deadlines)
     (cases "send_mfs_error msg c code s"; auto dest: send_mfs_error_deadlines)

lemma dispatch_deadlines:
  assumes "dispatch req fi i s = Inr s'"
  shows "deadlines s' = deadlines s"
proof -
  consider (send) msg c where "map_sum id snd (send_mfs_message msg c s) = Inr s'"
    | (ls) c where "list_files c s = Inr s'"
    | (err) c where "map_sum id snd (send_mfs_error req c 3003 s) = Inr s'"
    | (handler) which ev msg s1 c where "call_handler which ev req fi s = Inr (msg, s1)"
        "map_sum id snd (send_mfs_message msg c s1) = Inr s'"
    using assms by (auto simp: dispatch_def split: if_splits sum.splits)
  then show ?thesis
  proof cases
    case send then show ?thesis by (rule sent_deadlines)
  next
    case ls then show ?thesis by (rule list_files_deadlines)
  next
    case err then show ?thesis by (rule sent_deadlines)
  next
    case handler
    from sent_deadlines(1)[OF handler(2)] call_handler_deadlines[OF handler(1)]
    show ?thesis by simp
  qed
qed

lemma handle_request_deadline:
  assumes h: "handle_request req i s = Inr s'"
    and clock: "millis s (world s) = (now, w)"
    and i: "i < length (clients s)"
  shows "timer_end (clients s' ! i) = now + ucast (timer_ms s)"
proof -
  let ?s2 = "s\<lparr>world := w, calls := calls s @ [Call_millis],
                clients := (clients s)[i := (clients s ! i)\<lparr>timer_end := now + ucast (timer_ms s)\<rparr>]\<rparr>"
  from h clock have "map_sum id snd (send_mfs_error req (client (clients ?s2 ! i)) 1000 ?s2) = Inr s'
      \<or> (\<exists>fi. dispatch req fi i ?s2 = Inr s')"
    by (auto simp: handle_request_def call_millis_def Let_def split: sum.splits if_splits)
  then have "deadlines s' = deadlines ?s2"
    by (auto dest: sent_deadlines dispatch_deadlines)
  then have "map timer_end (clients s') ! i = map timer_end (clients ?s2) ! i"
    by (simp add: deadlines_def)
  moreover from \<open>deadlines s' = deadlines ?s2\<close> have "length (clients s') = length (clients ?s2)"
    unfolding deadlines_def by (metis length_map)
  ultimately show ?thesis using i by simp
qed

lemma peek_append: "k < length pb \<Longrightarrow> peek (Some (pb @ rest)) k = peek (Some pb) k"
  by (simp add: peek_def nth_append)

lemma strlen_loop_append:
  "n \<le> length pb \<Longrightarrow> strlen_loop (Some (pb @ rest)) n i = strlen_loop (Some pb) n i"
proof (induction "n - i" arbitrary: i)
  case 0
  then show ?case by (subst strlen_loop.simps, subst (2) strlen_loop.simps) simp
next
  case (Suc d)
  then have i: "i < length pb" and d: "d = n - Suc i" by simp_all
  from Suc.hyps(1)[OF d Suc.prems]
  have ih: "strlen_loop (Some (pb @ rest)) n (Suc i) = strlen_loop (Some pb) n (Suc i)" .
  from i show ?case
    by (subst strlen_loop.simps, subst (2) strlen_loop.simps) (simp add: peek_append ih split: sum.splits)
qed

lemma strlen_append:
  "unat n \<le> length pb \<Longrightarrow> strlen (Some (pb @ rest)) n = strlen (Some pb) n"
  by (simp add: strlen_def strlen_loop_append)

lemma nul_scan_append:
  "n \<le> length pb \<Longrightarrow> nul_scan (Some (pb @ rest)) n i = nul_scan (Some pb) n i"
proof (induction "n - i" arbitrary: i)
  case 0
  then show ?case by (subst nul_scan.simps, subst (2) nul_scan.simps) simp
next
  case (Suc d)
  then have i: "i < length pb" and d: "d = n - Suc i" by simp_all
  from Suc.hyps(1)[OF d Suc.prems]
  have ih: "nul_scan (Some (pb @ rest)) n (Suc i) = nul_scan (Some pb) n (Suc i)" .
  from i show ?case
    by (subst nul_scan.simps, subst (2) nul_scan.simps) (simp add: peek_append ih split: sum.splits)
qed

lemma memcmp_loop_append:
  "n \<le> length pb \<Longrightarrow> memcmp_loop (Some (pb @ rest)) b2 n i = memcmp_loop (Some pb) b2 n i"
proof (induction "n - i" arbitrary: i)
  case 0
  then show ?case by (subst memcmp_loop.simps, subst (2) memcmp_loop.simps) simp
next
  case (Suc d)
  then have i: "i < length pb" and d: "d = n - Suc i" by simp_all
  from Suc.hyps(1)[OF d Suc.prems]
  have ih: "memcmp_loop (Some (pb @ rest)) b2 n (Suc i) = memcmp_loop (Some pb) b2 n (Suc i)" .
  from i show ?case
    by (subst memcmp_loop.simps, subst (2) memcmp_loop.simps) (simp add: peek_append ih split: sum.splits)
qed

lemma file_scan_append:
  "unat n \<le> length pb \<Longrightarrow> file_scan fs (Some (pb @ rest)) n i = file_scan fs (Some pb) n i"
proof (induction "length fs - i" arbitrary: i)
  case 0
  then show ?case by (subst file_scan.simps, subst (2) file_scan.simps) simp
next
  case (Suc d)
  then have d: "d = length fs - Suc i" by simp
  from Suc.hyps(1)[OF d Suc.prems]
  have ih: "file_scan fs (Some (pb @ rest)) n (Suc i) = file_scan fs (Some pb) n (Suc i)" .
  from Suc.prems show ?case
    by (subst file_scan.simps, subst (2) file_scan.simps)
       (simp add: memcmp_def memcmp_loop_append ih split: sum.splits)
qed

lemma get_file_index_append:
  "unat n \<le> length pb \<Longrightarrow> get_file_index fs (Some (pb @ rest)) n = get_file_index fs (Some pb) n"
  by (simp add: get_file_index_def nul_scan_append file_scan_append split: sum.splits)

lemma strlen_loop_bounds:
  "strlen_loop buf n i = Inr len \<Longrightarrow> i \<le> n \<Longrightarrow> i \<le> len \<and> len \<le> n"
proof (induction buf n i rule: strlen_loop.induct)
  case (1 buf n i)
  show ?case
  proof (cases "i < n")
    case False
    with "1.prems" show ?thesis by (subst (asm) strlen_loop.simps) simp
  next
    case True
    with "1.prems"(1) obtain ch where ch: "peek buf i = Inr ch"
      and r: "(ch = 0 \<and> len = i) \<or> (ch \<noteq> 0 \<and> strlen_loop buf n (Suc i) = Inr len)"
      by (subst (asm) strlen_loop.simps) (auto split: sum.splits if_splits)
    from r show ?thesis
    proof
      assume "ch = 0 \<and> len = i"
      with True show ?thesis by simp
    next
      assume a: "ch \<noteq> 0 \<and> strlen_loop buf n (Suc i) = Inr len"
      with "1.IH"[OF True ch] True show ?thesis by auto
    qed
  qed
qed

lemma strlen_le: "strlen buf n = Inr len \<Longrightarrow> unat len \<le> unat n"
proof -
  assume a: "strlen buf n = Inr len"
  then obtain k where k: "strlen_loop buf (unat n) 0 = Inr k"
    and len: "len = (if k = unat n then 0 else of_nat k)"
    by (auto simp: strlen_def split: sum.splits if_splits)
  from strlen_loop_bounds[OF k] have "k \<le> unat n" by simp
  with len show ?thesis
    by (auto simp: unat_of_nat intro: order_trans[OF mod_less_eq_dividend])
qed

lemma request_file_index_path:
  assumes "path req = Path_Buffer" "length pb = unat (psize req)"
    and "path_buffer s = pb @ rest"
  shows "request_file_index req s =
           (case strlen (Some pb) (psize req) of
              Inl f \<Rightarrow> Inl f
            | Inr len \<Rightarrow> get_file_index (files s) (Some pb) len)"
proof (cases "strlen (Some pb) (psize req)")
  case (Inl f)
  with assms show ?thesis
    by (simp add: request_file_index_def pointee_def strlen_append)
next
  case (Inr len)
  from strlen_le[OF Inr] assms(2) have "unat len \<le> length pb" by simp
  with Inr assms show ?thesis
    by (simp add: request_file_index_def pointee_def strlen_append get_file_index_append)
qed

lemma read_mfs_message_request:
  assumes bufs: "buffers_ok s"
    and header: "delivers s (world s) c hdr w1" "length hdr = 9"
    and req: "req = read_headers (char_signed s) hdr fresh_msg"
    and fits: "psize req \<le> hard_limit s" "dsize req \<le> hard_limit s"
      "psize req \<le> path_bsize s" "dsize req \<le> data_bsize s"
    and body: "delivers s w1 c pb w2" "length pb = unat (psize req)"
      "delivers s w2 c db w3" "length db = unat (dsize req)"
  shows "read_mfs_message c s =
           Some (Inr (req\<lparr>data := Data_Buffer, path := Path_Buffer\<rparr>,
                      s\<lparr>world := w3,
                        calls := calls s @ [Call_read c 9, Call_read c (length pb), Call_read c (length db)],
                        path_buffer := pb @ drop (length pb) (path_buffer s),
                        data_buffer := db @ drop (length db) (data_buffer s)\<rparr>))"
proof -
  from fits have no: "(hard_limit s < psize req) = False" "(hard_limit s < dsize req) = False"
    "(path_bsize s < psize req) = False" "(data_bsize s < dsize req) = False"
    by (simp_all add: not_less)
  from fits bufs have len: "(length (path_buffer s) < unat (psize req)) = False"
    "(length (data_buffer s) < unat (dsize req)) = False"
    by (auto simp: buffers_ok_def word_le_nat_alt)
  from header body have rd: "client_reader s (world s) c 9 = (Some hdr, w1)"
    "client_reader s w1 c (unat (psize req)) = (Some pb, w2)"
    "client_reader s w2 c (unat (dsize req)) = (Some db, w3)"
    by (simp_all add: delivers_def)
  show ?thesis
    using rd header(2) body(2,4) no len
    by (simp add: read_mfs_message_def call_reader_def read_ok_def received_def Let_def
        req[symmetric] read_into_path_def read_into_data_def store_def)
qed

lemma serve_visit_request:
  assumes slot: "i < length (clients s)" "client (clients s ! i) = c" "c \<noteq> 0"
    and bufs: "buffers_ok s"
    and clock: "millis s (world s) = (now, w1)" "now < timer_end (clients s ! i)"
    and avail: "client_available s w1 c = (avail, w2)" "9 \<le> avail"
    and header: "delivers s w2 c hdr w3" "length hdr = 9"
    and req: "req = read_headers (char_signed s) hdr fresh_msg"
    and fits: "psize req \<le> hard_limit s" "dsize req \<le> hard_limit s"
      "psize req \<le> path_bsize s" "dsize req \<le> data_bsize s"
    and body: "delivers s w3 c pb w4" "length pb = unat (psize req)"
      "delivers s w4 c db w5" "length db = unat (dsize req)"
  shows "serve_visit i s =
           Some (handle_request (req\<lparr>data := Data_Buffer, path := Path_Buffer\<rparr>) i
                  (s\<lparr>world := w5,
                     calls := calls s @ [Call_millis, Call_available c, Call_read c 9,
                                         Call_read c (length pb), Call_read c (length db)],
                     path_buffer := pb @ drop (length pb) (path_buffer s),
                     data_buffer := db @ drop (length db) (data_buffer s)\<rparr>))"
proof -
  let ?s2 = "s\<lparr>world := w2, calls := calls s @ [Call_millis, Call_available c]\<rparr>"
  from clock(2) have nle: "(timer_end (clients s ! i) \<le> now) = False" by simp
  have rd: "read_mfs_message c ?s2 =
           Some (Inr (req\<lparr>data := Data_Buffer, path := Path_Buffer\<rparr>,
                      ?s2\<lparr>world := w5,
                        calls := calls ?s2 @ [Call_read c 9, Call_read c (length pb), Call_read c (length db)],
                        path_buffer := pb @ drop (length pb) (path_buffer ?s2),
                        data_buffer := db @ drop (length db) (data_buffer ?s2)\<rparr>))"
    by (rule read_mfs_message_request[where hdr = hdr and ?w1.0 = w3 and ?w2.0 = w4])
       (use bufs header req fits body in \<open>simp_all add: buffers_ok_def delivers_def\<close>)
  show ?thesis
    using slot clock(1) avail
    by (simp add: serve_visit_def call_millis_def call_available_def nle rd)
qed

lemma timeout_reply:
  assumes slot: "client_slot c (clients s) = Some i" "c \<noteq> 0"
    and bufs: "buffers_ok s"
    and clock: "millis s (world s) = (now, w1)" "timer_end (clients s ! i) \<le> now"
    and writes: "accepts s w1 c [0, 0, 0, 0, 2, 0, 0, 0, 0x84] a1" "accepts s a1 c [] a2"
      "accepts s a2 c [0xB8, 0x0B] a3"
  shows "serve_visit i s =
           Some (Inr (s\<lparr>world := client_killer s a3 c,
                         calls := calls s @ [Call_millis,
                                             Call_write c [0, 0, 0, 0, 2, 0, 0, 0, 0x84],
                                             Call_write c [], Call_write c [0xB8, 0x0B],
                                             Call_close c],
                         data_buffer := (data_buffer s)[0 := 0xB8, 1 := 0x0B],
                         clients := (clients s)[i := (clients s ! i)\<lparr>client := 0\<rparr>]\<rparr>))"
proof -
  from client_slot_Some[OF slot(1)] have i: "i < length (clients s)" "client (clients s ! i) = c"
    by simp_all
  let ?s1 = "s\<lparr>world := w1, calls := calls s @ [Call_millis]\<rparr>"
  have hdr: "take 4 (fill_headers noop_response) @ [2, 0, 0, 0, 0x84] = [0, 0, 0, 0, 2, 0, 0, 0, 0x84]"
    by (simp add: fill_headers_def noop_response_def)
  have noop: "region ?s1 (path noop_response) (unat (psize noop_response)) = Inr []"
    "path noop_response \<noteq> Data_Buffer" "uint (psize noop_response) = 0"
    by (simp_all add: region_def noop_response_def)
  have code: "[ucast ((3000 :: 16 word) AND 0xFF), ucast (drop_bit 8 (3000 :: 16 word) AND 0xFF)]
                = [0xB8, 0x0B :: byte]"
    by simp
  have "send_mfs_error noop_response c 3000 ?s1 =
           Inr (0, ?s1\<lparr>world := a3,
                      calls := calls ?s1 @ [Call_write c (take 4 (fill_headers noop_response) @ [2, 0, 0, 0, 0x84]),
                                          Call_write c [],
                                          Call_write c [ucast ((3000 :: 16 word) AND 0xFF), ucast (drop_bit 8 (3000 :: 16 word) AND 0xFF)]],
                      data_buffer := (data_buffer ?s1)[0 := ucast ((3000 :: 16 word) AND 0xFF), 1 := ucast (drop_bit 8 (3000 :: 16 word) AND 0xFF)]\<rparr>)"
    by (rule send_mfs_error_accepted[where ?w1.0 = a1 and ?w2.0 = a2])
       (use bufs writes noop in \<open>simp_all add: buffers_ok_def accepts_def hdr\<close>)
  then have snd: "send_mfs_error noop_response c 3000 ?s1 =
           Inr (0, s\<lparr>world := a3,
                      calls := calls s @ [Call_millis, Call_write c [0, 0, 0, 0, 2, 0, 0, 0, 0x84],
                                          Call_write c [], Call_write c [0xB8, 0x0B]],
                      data_buffer := (data_buffer s)[0 := 0xB8, 1 := 0x0B]\<rparr>)"
    by (simp add: hdr)
  show ?thesis
    using slot clock i
    by (simp add: serve_visit_def call_millis_def snd drop_client_found)
qed

lemma timeout_always_drops:
  assumes slot: "client_slot c (clients s) = Some i" "c \<noteq> 0"
    and bufs: "buffers_ok s"
    and clock: "millis s (world s) = (now, w1)" "timer_end (clients s ! i) \<le> now"
  shows "\<exists>k s'. serve_visit i s = Some (Inr s') \<and> 1 \<le> k \<and> k \<le> 3
           \<and> calls s' = calls s @ Call_millis
                 # take k [Call_write c [0, 0, 0, 0, 2, 0, 0, 0, 0x84], Call_write c [],
                           Call_write c [0xB8, 0x0B]]
                 @ [Call_close c]
           \<and> clients s' = (clients s)[i := (clients s ! i)\<lparr>client := 0\<rparr>]"
proof -
  from client_slot_Some[OF slot(1)] have i: "i < length (clients s)" "client (clients s ! i) = c"
    by simp_all
  from bufs have "2 \<le> length (data_buffer s)" by (simp add: buffers_ok_def)
  then obtain a b rest where db: "data_buffer s = a # b # rest"
    by (cases "data_buffer s"; simp) (rename_tac x xs, case_tac xs; simp)
  obtain r1 a1 where x1: "client_writer s w1 c [0, 0, 0, 0, 2, 0, 0, 0, 0x84] = (r1, a1)"
    by (cases "client_writer s w1 c [0, 0, 0, 0, 2, 0, 0, 0, 0x84]")
  obtain r2 a2 where x2: "client_writer s a1 c [] = (r2, a2)"
    by (cases "client_writer s a1 c []")
  obtain r3 a3 where x3: "client_writer s a2 c [0xB8, 0x0B] = (r3, a3)"
    by (cases "client_writer s a2 c [0xB8, 0x0B]")
  note ev = serve_visit_def call_millis_def send_mfs_error_def send_mfs_message_def
    call_writer_def write_from_def region_def noop_response_def fill_headers_def
    RESPONSE_OF_def OP_ERROR_def drop_client_found Let_def
  consider (h) "r1 \<noteq> 9" | (p) "r1 = 9" "r2 \<noteq> 0" | (d) "r1 = 9" "r2 = 0" "r3 \<noteq> 2"
    | (ok) "r1 = 9" "r2 = 0" "r3 = 2"
    by blast
  then show ?thesis
  proof cases
    case h
    with slot clock i db x1 show ?thesis
      by - (rule exI[where x = 1], simp add: ev)
  next
    case p
    with slot clock i db x1 x2 show ?thesis
      by - (rule exI[where x = 2], simp add: ev)
  next
    case d
    with slot clock i db x1 x2 x3 show ?thesis
      by - (rule exI[where x = 3], simp add: ev)
  next
    case ok
    with slot clock i db x1 x2 x3 show ?thesis
      by - (rule exI[where x = 3], simp add: ev)
  qed
qed

lemma length_fill_headers [simp]: "length (fill_headers m) = 9"
  by (simp add: fill_headers_def)

lemma handle_request_resolved:
  assumes i: "i < length (clients s)"
    and clock: "millis s (world s) = (now, w)"
    and pth: "path req = Path_Buffer" "length pb = unat (psize req)" "path_buffer s = pb @ rest"
    and lookup: "strlen (Some pb) (psize req) = Inr len"
      "get_file_index (files s) (Some pb) len = Inr fi" "fi \<noteq> - 1"
  shows "handle_request req i s =
           dispatch req fi i
             (s\<lparr>world := w, calls := calls s @ [Call_millis],
                clients := (clients s)[i := (clients s ! i)\<lparr>timer_end := now + ucast (timer_ms s)\<rparr>]\<rparr>)"
proof -
  let ?s2 = "s\<lparr>world := w, calls := calls s @ [Call_millis],
                clients := (clients s)[i := (clients s ! i)\<lparr>timer_end := now + ucast (timer_ms s)\<rparr>]\<rparr>"
  have "request_file_index req ?s2 = Inr fi"
    using request_file_index_path[of req pb ?s2 rest] pth lookup by simp
  with clock lookup(3) show ?thesis
    by (simp add: handle_request_def call_millis_def Let_def)
qed

lemma handle_request_unresolved:
  assumes i: "i < length (clients s)"
    and clock: "millis s (world s) = (now, w)"
    and pth: "path req = Path_Buffer" "length pb = unat (psize req)" "path_buffer s = pb @ rest"
    and lookup: "strlen (Some pb) (psize req) = Inr len"
      "get_file_index (files s) (Some pb) len = Inr (- 1)"
    and opc: "op req \<noteq> OP_LS" "op req \<noteq> OP_NOOP"
  shows "handle_request req i s =
           map_sum id snd
             (send_mfs_error req (client (clients s ! i)) 1000
               (s\<lparr>world := w, calls := calls s @ [Call_millis],
                  clients := (clients s)[i := (clients s ! i)\<lparr>timer_end := now + ucast (timer_ms s)\<rparr>]\<rparr>))"
proof -
  let ?s2 = "s\<lparr>world := w, calls := calls s @ [Call_millis],
                clients := (clients s)[i := (clients s ! i)\<lparr>timer_end := now + ucast (timer_ms s)\<rparr>]\<rparr>"
  have "request_file_index req ?s2 = Inr (- 1)"
    using request_file_index_path[of req pb ?s2 rest] pth lookup by simp
  with clock opc i show ?thesis
    by (simp add: handle_request_def call_millis_def Let_def)
qed

lemma always_delivers_frame [simp]:
  "always_delivers (s\<lparr>world := w\<rparr>) c = always_delivers s c"
  "always_delivers (s\<lparr>calls := cs\<rparr>) c = always_delivers s c"
  "always_delivers (s\<lparr>data_buffer := b\<rparr>) c = always_delivers s c"
  "always_delivers (s\<lparr>path_buffer := b\<rparr>) c = always_delivers s c"
  by (simp_all add: always_delivers_def)

lemma chunk_facts:
  fixes processed ds cap :: "32 word"
  assumes lt: "processed < ds" and cap: "0 < cap"
  defines "chunk \<equiv> (if ds - processed > cap then cap else ds - processed)"
  shows "0 < unat chunk" "unat chunk \<le> unat cap"
    "unat (processed + chunk) = unat processed + unat chunk"
    "unat processed + unat chunk \<le> unat ds"
proof -
  from lt have p: "unat processed < unat ds" by (simp add: word_less_nat_alt)
  from lt have d: "unat (ds - processed) = unat ds - unat processed"
    by (simp add: unat_sub)
  from cap have c: "0 < unat cap" by (simp add: word_less_nat_alt)
  have ch: "unat chunk = min (unat cap) (unat ds - unat processed)"
    unfolding chunk_def using d by (auto simp: word_less_nat_alt min_def)
  from ch p c show "0 < unat chunk" by simp
  from ch show "unat chunk \<le> unat cap" by simp
  from ch p show le: "unat processed + unat chunk \<le> unat ds" by simp
  have "unat ds < 2 ^ LENGTH(32)" by (rule unsigned_less)
  with le have "unat processed + unat chunk < 2 ^ LENGTH(32)" by simp
  then show "unat (processed + chunk) = unat processed + unat chunk"
    using unat_add_lem[of processed chunk] by simp
qed

lemma drain_data_delivered:
  assumes "always_delivers s c"
    and "0 < data_bsize s" "unat (data_bsize s) \<le> length (data_buffer s)"
    and "processed \<le> ds"
  shows "\<exists>w b D. drain_data c ds processed s =
             Some (Inr (s\<lparr>world := w, calls := calls s @ map (Call_read c) D, data_buffer := b\<rparr>))
           \<and> sum_list D = unat ds - unat processed
           \<and> (\<forall>n\<in>set D. 0 < n \<and> n \<le> unat (data_bsize s))
           \<and> length b = length (data_buffer s)"
  using assms
proof (induction "unat ds - unat processed" arbitrary: processed s rule: less_induct)
  case less
  show ?case
  proof (cases "processed < ds")
    case False
    with less.prems(4) have eq: "processed = ds" by simp
    have "drain_data c ds processed s = Some (Inr s)"
      by (subst drain_data.simps) (simp add: eq)
    then show ?thesis
      by (intro exI[where x = "world s"] exI[where x = "data_buffer s"] exI[where x = "[]"])
         (simp add: eq)
  next
    case True
    define chunk where "chunk = (if ds - processed > data_bsize s then data_bsize s else ds - processed)"
    note cf = chunk_facts[OF True less.prems(2), folded chunk_def]
    from less.prems(1) obtain bs w' where rd: "client_reader s (world s) c (unat chunk) = (Some bs, w')"
      and lb: "length bs = unat chunk"
      unfolding always_delivers_def by blast
    let ?s1 = "s\<lparr>world := w', calls := calls s @ [Call_read c (unat chunk)],
                  data_buffer := bs @ drop (length bs) (data_buffer s)\<rparr>"
    from cf(2) less.prems(3) have fit: "unat chunk \<le> length (data_buffer s)" by simp
    have step: "read_into_data c chunk s = Inr (True, ?s1)"
      using rd lb fit
      by (simp add: read_into_data_def call_reader_def read_ok_def store_def received_def)
    have unf: "drain_data c ds processed s = drain_data c ds (processed + chunk) ?s1"
      by (subst drain_data.simps) (simp add: True chunk_def[symmetric] step)
    have m: "unat ds - unat (processed + chunk) < unat ds - unat processed"
      using cf by simp
    have le': "processed + chunk \<le> ds"
      using cf by (simp add: word_le_nat_alt)
    have "\<exists>w b D. drain_data c ds (processed + chunk) ?s1 =
             Some (Inr (?s1\<lparr>world := w, calls := calls ?s1 @ map (Call_read c) D, data_buffer := b\<rparr>))
           \<and> sum_list D = unat ds - unat (processed + chunk)
           \<and> (\<forall>n\<in>set D. 0 < n \<and> n \<le> unat (data_bsize ?s1))
           \<and> length b = length (data_buffer ?s1)"
      by (rule less.hyps[OF m]) (use less.prems lb fit le' in simp_all)
    then obtain w b D where
      r: "drain_data c ds (processed + chunk) ?s1 =
             Some (Inr (?s1\<lparr>world := w, calls := calls ?s1 @ map (Call_read c) D, data_buffer := b\<rparr>))"
      and sm: "sum_list D = unat ds - unat (processed + chunk)"
      and bd: "\<forall>n\<in>set D. 0 < n \<and> n \<le> unat (data_bsize s)"
      and ln: "length b = length (data_buffer s)"
      using lb fit by auto
    show ?thesis
      by (intro exI[where x = w] exI[where x = b] exI[where x = "unat chunk # D"])
         (use unf r sm bd ln cf in simp)
  qed
qed

lemma drain_path_delivered:
  assumes rel: "always_delivers s c"
    and cap: "unat (path_bsize s) \<le> length (path_buffer s)"
  shows "\<exists>w b P. drain_path c ps s =
             Inr (s\<lparr>world := w, calls := calls s @ map (Call_read c) P, path_buffer := b\<rparr>)
           \<and> (ps \<le> path_bsize s \<longrightarrow> sum_list P = unat ps)
           \<and> (\<forall>n\<in>set P. n \<le> unat (path_bsize s))"
proof (cases "0 < ps")
  case False
  then have z: "ps = 0" by (simp add: word_gt_0)
  show ?thesis
    by (intro exI[where x = "world s"] exI[where x = "path_buffer s"] exI[where x = "[]"])
       (simp add: drain_path_def z)
next
  case True
  define chunk where "chunk = (if path_bsize s < ps then path_bsize s else ps)"
  have cle: "unat chunk \<le> unat (path_bsize s)"
    by (auto simp: chunk_def word_le_nat_alt word_less_nat_alt)
  have ceq: "ps \<le> path_bsize s \<Longrightarrow> chunk = ps"
    by (auto simp: chunk_def)
  from rel obtain bs w' where rd: "client_reader s (world s) c (unat chunk) = (Some bs, w')"
    and lb: "length bs = unat chunk"
    unfolding always_delivers_def by blast
  from cle cap have fit: "unat chunk \<le> length (path_buffer s)" by simp
  have "read_into_path c chunk s =
          Inr (True, s\<lparr>world := w', calls := calls s @ [Call_read c (unat chunk)],
                        path_buffer := bs @ drop (length bs) (path_buffer s)\<rparr>)"
    using rd lb fit
    by (simp add: read_into_path_def call_reader_def read_ok_def store_def received_def)
  moreover have "chunk = path_bsize s \<and> path_bsize s < ps \<or> chunk = ps \<and> \<not> path_bsize s < ps"
    by (auto simp: chunk_def)
  ultimately have "drain_path c ps s =
          Inr (s\<lparr>world := w', calls := calls s @ [Call_read c (unat chunk)],
                        path_buffer := bs @ drop (length bs) (path_buffer s)\<rparr>)"
    using True by (auto simp: drain_path_def)
  then show ?thesis
    by (intro exI[where x = w'] exI[where x = "bs @ drop (length bs) (path_buffer s)"]
          exI[where x = "[unat chunk]"])
       (use cle ceq in auto)
qed

lemma always_accepts_frame [simp]:
  "always_accepts (s\<lparr>world := w\<rparr>) c = always_accepts s c"
  "always_accepts (s\<lparr>calls := cs\<rparr>) c = always_accepts s c"
  "always_accepts (s\<lparr>data_buffer := b\<rparr>) c = always_accepts s c"
  "always_accepts (s\<lparr>path_buffer := b\<rparr>) c = always_accepts s c"
  by (simp_all add: always_accepts_def)

lemma error_then_drop:
  fixes code :: "16 word"
  defines "c0 \<equiv> ucast (code AND 0xFF) :: byte"
    and "c1 \<equiv> ucast (drop_bit 8 code AND 0xFF) :: byte"
  assumes slot: "client_slot c (clients s) = Some i" "c \<noteq> 0"
    and len: "2 \<le> length (data_buffer s)"
    and msg: "psize msg = 0" "path msg = Null"
  shows "\<exists>k r s1. send_mfs_error msg c code s = Inr (r, s1) \<and> 1 \<le> k \<and> k \<le> 3
           \<and> (always_accepts s c \<longrightarrow> k = 3)
           \<and> calls (snd (drop_client (client (clients s1 ! i)) s1))
               = calls s @ take k [Call_write c [0, 0, 0, 0, 2, 0, 0, 0, 0x84], Call_write c [],
                                   Call_write c [c0, c1]] @ [Call_close c]
           \<and> clients (snd (drop_client (client (clients s1 ! i)) s1))
               = (clients s)[i := (clients s ! i)\<lparr>client := 0\<rparr>]"
proof -
  from client_slot_Some[OF slot(1)] have i: "i < length (clients s)" "client (clients s ! i) = c"
    by simp_all
  from len obtain a b rest where db: "data_buffer s = a # b # rest"
    by (cases "data_buffer s"; simp) (rename_tac x xs, case_tac xs; simp)
  obtain r1 a1 where x1: "client_writer s (world s) c [0, 0, 0, 0, 2, 0, 0, 0, 0x84] = (r1, a1)"
    by (cases "client_writer s (world s) c [0, 0, 0, 0, 2, 0, 0, 0, 0x84]")
  obtain r2 a2 where x2: "client_writer s a1 c [] = (r2, a2)"
    by (cases "client_writer s a1 c []")
  obtain r3 a3 where x3: "client_writer s a2 c [c0, c1] = (r3, a3)"
    by (cases "client_writer s a2 c [c0, c1]")
  have hd: "fill_headers (msg\<lparr>op := RESPONSE_OF OP_ERROR, dsize := 2, data := Data_Buffer\<rparr>)
              = [0, 0, 0, 0, 2, 0, 0, 0, 0x84]"
    using msg by (simp add: fill_headers_def RESPONSE_OF_def OP_ERROR_def)
  have acc1: "r1 = 9" if "always_accepts s c"
  proof -
    from that obtain w' where "client_writer s (world s) c [0, 0, 0, 0, 2, 0, 0, 0, 0x84]
        = (int (length [0, 0, 0, 0, 2, 0, 0, 0, 0x84 :: byte]), w')"
      unfolding always_accepts_def by blast
    with x1 show ?thesis by simp
  qed
  have acc2: "r2 = 0" if "always_accepts s c"
  proof -
    from that obtain w' where "client_writer s a1 c [] = (int (length ([] :: byte list)), w')"
      unfolding always_accepts_def by blast
    with x2 show ?thesis by simp
  qed
  note ev = send_mfs_error_def send_mfs_message_def call_writer_def write_from_def region_def
    hd drop_client_found Let_def c0_def[symmetric] c1_def[symmetric]
  consider (h) "r1 \<noteq> 9" | (p) "r1 = 9" "r2 \<noteq> 0" | (d) "r1 = 9" "r2 = 0" "r3 \<noteq> 2"
    | (ok) "r1 = 9" "r2 = 0" "r3 = 2"
    by blast
  then show ?thesis
  proof cases
    case h
    with acc1 have na: "\<not> always_accepts s c" by blast
    from h slot i db x1 msg show ?thesis
      by - (rule exI[where x = 1], simp add: ev na)
  next
    case p
    with acc2 have na: "\<not> always_accepts s c" by blast
    from p slot i db x1 x2 msg show ?thesis
      by - (rule exI[where x = 2], simp add: ev na)
  next
    case d
    with slot i db x1 x2 x3 msg show ?thesis
      by - (rule exI[where x = 3], simp add: ev)
  next
    case ok
    with slot i db x1 x2 x3 msg show ?thesis
      by - (rule exI[where x = 3], simp add: ev)
  qed
qed

lemma read_mfs_message_drains:
  fixes s :: "'e mfs_server" and hdr :: "byte list"
  defines "req \<equiv> read_headers (char_signed s) hdr fresh_msg"
  assumes bufs: "buffers_ok s"
    and rel: "always_delivers s c"
    and header: "delivers s (world s) c hdr w1" "length hdr = 9"
    and within: "psize req \<le> hard_limit s" "dsize req \<le> hard_limit s"
    and over: "path_bsize s < psize req \<or> data_bsize s < dsize req"
  shows "\<exists>w pbuf dbuf P D.
           read_mfs_message c s =
             answer_error c 1
               (s\<lparr>path_buffer := pbuf, world := w,
                  calls := calls s @ Call_read c 9 # map (Call_read c) P @ map (Call_read c) D,
                  data_buffer := dbuf\<rparr>)
           \<and> length dbuf = length (data_buffer s)
           \<and> sum_list D = unat (dsize req)
           \<and> (\<forall>n\<in>set D. 0 < n \<and> n \<le> unat (data_bsize s))
           \<and> (psize req \<le> path_bsize s \<longrightarrow> sum_list P = unat (psize req))
           \<and> (\<forall>n\<in>set P. n \<le> unat (path_bsize s))"
proof -
  let ?s1 = "s\<lparr>world := w1, calls := calls s @ [Call_read c 9]\<rparr>"
  from within have no: "(hard_limit s < psize req) = False" "(hard_limit s < dsize req) = False"
    by (simp_all add: not_less)
  from header have rd: "client_reader s (world s) c 9 = (Some hdr, w1)" by (simp add: delivers_def)
  from bufs have caps: "unat (path_bsize s) \<le> length (path_buffer s)"
    "unat (data_bsize s) \<le> length (data_buffer s)" "0 < data_bsize s"
    by (auto simp: buffers_ok_def word_less_nat_alt)
  from drain_path_delivered[of ?s1 c "psize req"] rel caps obtain w2 pbuf P where
    dp: "drain_path c (psize req) ?s1 =
             Inr (?s1\<lparr>world := w2, calls := calls ?s1 @ map (Call_read c) P, path_buffer := pbuf\<rparr>)"
    and sp: "psize req \<le> path_bsize s \<longrightarrow> sum_list P = unat (psize req)"
    and bp: "\<forall>n\<in>set P. n \<le> unat (path_bsize s)"
    by auto
  let ?s2 = "?s1\<lparr>world := w2, calls := calls ?s1 @ map (Call_read c) P, path_buffer := pbuf\<rparr>"
  from drain_data_delivered[of ?s2 c 0 "dsize req"] rel caps obtain w3 dbuf D where
    dd: "drain_data c (dsize req) 0 ?s2 =
             Some (Inr (?s2\<lparr>world := w3, calls := calls ?s2 @ map (Call_read c) D, data_buffer := dbuf\<rparr>))"
    and sd: "sum_list D = unat (dsize req)"
    and bd: "\<forall>n\<in>set D. 0 < n \<and> n \<le> unat (data_bsize s)"
    and ld: "length dbuf = length (data_buffer s)"
    by auto
  have "read_mfs_message c s =
           answer_error c 1
             (s\<lparr>path_buffer := pbuf, world := w3,
                calls := calls s @ Call_read c 9 # map (Call_read c) P @ map (Call_read c) D,
                data_buffer := dbuf\<rparr>)"
    using rd header(2) no over dp dd
    by (simp add: read_mfs_message_def call_reader_def read_ok_def received_def Let_def
        req_def[symmetric])
  with sd bd sp bp ld show ?thesis
    by - (rule exI[where x = w3], rule exI[where x = pbuf], rule exI[where x = dbuf],
          rule exI[where x = P], rule exI[where x = D], simp)
qed

lemma strlen_loop_no_nul:
  "n \<le> length buf \<Longrightarrow> \<forall>k. i \<le> k \<and> k < n \<longrightarrow> buf ! k \<noteq> 0 \<Longrightarrow> i \<le> n \<Longrightarrow>
     strlen_loop (Some buf) n i = Inr n"
proof (induction "n - i" arbitrary: i)
  case 0
  then show ?case by (subst strlen_loop.simps) simp
next
  case (Suc d)
  then have lt: "i < n" and d: "d = n - Suc i" by simp_all
  from Suc.hyps(1)[OF d Suc.prems(1)] Suc.prems(2) lt
  have ih: "strlen_loop (Some buf) n (Suc i) = Inr n" by simp
  from lt Suc.prems show ?case
    by (subst strlen_loop.simps) (simp add: peek_def ih)
qed

lemma strlen_unterminated:
  assumes "unat n \<le> length buf" "0 \<notin> set (take (unat n) buf)"
  shows "strlen (Some buf) n = Inr 0"
proof -
  have "\<forall>k. 0 \<le> k \<and> k < unat n \<longrightarrow> buf ! k \<noteq> 0"
  proof (intro allI impI)
    fix k assume k: "0 \<le> k \<and> k < unat n"
    with assms(1) have "take (unat n) buf ! k \<in> set (take (unat n) buf)"
      by (intro nth_mem) simp
    with k assms(2) show "buf ! k \<noteq> 0" by auto
  qed
  from strlen_loop_no_nul[OF assms(1) this] show ?thesis
    by (simp add: strlen_def)
qed

text \<open>A free slot has a name of string length 0.\<close>

lemma free_slot_strlen:
  "is_file_empty f \<Longrightarrow> strlen (file_path f) (path_size f) = Inr 0"
  by (simp add: is_file_empty_def strlen_def strlen_loop.simps)

lemma file_scan_empty_name:
  assumes "i < length fs" "strlen (file_path (fs ! i)) (path_size (fs ! i)) = Inr 0"
    and "\<forall>j<i. \<exists>len. strlen (file_path (fs ! j)) (path_size (fs ! j)) = Inr len \<and> len \<noteq> 0"
    and "j \<le> i"
  shows "file_scan fs pth 0 j = Inr (int i)"
  using assms(4)
proof (induction "i - j" arbitrary: j)
  case 0
  then have eq: "j = i" by simp
  have "memcmp pth (file_path (fs ! i)) 0 0 = Inr 0"
    by (simp add: memcmp_def memcmp_loop.simps)
  with assms(1,2) show ?case
    by (subst file_scan.simps) (simp add: eq)
next
  case (Suc d)
  then have lt: "j < i" and d: "d = i - Suc j" by simp_all
  from Suc.hyps(1)[OF d] lt have ih: "file_scan fs pth 0 (Suc j) = Inr (int i)" by simp
  from assms(3) lt obtain len where len: "strlen (file_path (fs ! j)) (path_size (fs ! j)) = Inr len"
    "len \<noteq> 0"
    by blast
  then have "memcmp pth (file_path (fs ! j)) 0 len = Inr 1"
    by (auto simp: memcmp_def)
  with len lt assms(1) ih show ?case
    by (subst file_scan.simps) simp
qed

text \<open>Unfolding the model on concrete inputs.\<close>

lemmas sim_eval = sim_server_def sim_reader_def sim_writer_def sim_available_def
  delivers_def accepts_def buffers_ok_def c7_def c9_def


lemmas server_eval =
  serve_visit_def handle_request_def dispatch_def request_file_index_def pointee_def
  call_handler_def read_mfs_message_def answer_error_def drain_path_def
  read_into_path_def read_into_data_def store_def received_def read_ok_def
  send_mfs_error_def send_mfs_message_def write_from_def region_def
  drop_client_def call_killer_def call_reader_def call_writer_def call_available_def
  call_millis_def list_files_def memcpy_def memcpy_loop.simps
  read_headers_def char_to_uint_def fill_headers_def fresh_msg_def empty_error_msg_def
  noop_response_def RESPONSE_OF_def OP_NOOP_def OP_READ_def OP_WRITE_def OP_LS_def OP_ERROR_def
  MFS_RESERVED_OP_RANGE_def Let_def

lemma replicate_numeral: "replicate (numeral k) x = x # replicate (pred_numeral k) x"
  by (simp add: numeral_eq_Suc)

lemma sim_steady: "always_delivers (sim_server True pc dc cs fs inb t) c"
  "always_accepts (sim_server steady pc dc cs fs inb t) c"
  by (auto simp: always_delivers_def always_accepts_def sim_server_def sim_reader_def sim_writer_def)

section \<open>The claims about the serve loop\<close>

text \<open>
  Claim C7: a request whose header advertises a \<open>psize\<close> or a \<open>dsize\<close> above the
  hard limit makes the server drop the client at once: after the read of the nine header
  bytes the only call that leaves the server is the close of that client, so no body byte
  is read and no error response is written. The client sits in the slot \<open>i\<close>, and no
  slot before \<open>i\<close> holds the same identifier.
\<close>

theorem hard_limit_drop:
  assumes slot: "i < length (clients s)" "client (clients s ! i) = c"
      "\<forall>j<i. client (clients s ! j) \<noteq> c" "c \<noteq> 0"
    and clock: "millis s (world s) = (now, w1)" "now < timer_end (clients s ! i)"
    and avail: "client_available s w1 c = (avail, w2)" "9 \<le> avail"
    and header: "delivers s w2 c hdr w3" "length hdr = 9"
    and limit: "hard_limit s < psize (read_headers (char_signed s) hdr fresh_msg)
                \<or> hard_limit s < dsize (read_headers (char_signed s) hdr fresh_msg)"
  shows "serve_visit i s =
           Some (Inr (s\<lparr>world := client_killer s w3 c,
                         calls := calls s @ [Call_millis, Call_available c, Call_read c 9, Call_close c],
                         clients := (clients s)[i := (clients s ! i)\<lparr>client := 0\<rparr>]\<rparr>))"
proof -
  from client_slot_first[OF slot(1-3)] have found: "client_slot c (clients s) = Some i" .
  from clock(2) have nle: "(timer_end (clients s ! i) \<le> now) = False" by simp
  from header have rd: "client_reader s w2 c 9 = (Some hdr, w3)" by (simp add: delivers_def)
  show ?thesis
    using found slot(1,2,4) clock(1) avail rd header(2) limit
    by (simp add: nle serve_visit_def call_millis_def call_available_def read_mfs_message_def
        call_reader_def read_ok_def received_def drop_client_found
        empty_error_msg_def)
qed

theorem hard_limit_drop_witness:
  "serve_visit 0 (sim_server False 16 16 [c7] [f_hi] over_limit_inbox 100) =
     Some (Inr ((sim_server False 16 16 [c7] [f_hi] over_limit_inbox 100)
                  \<lparr>world := \<lparr>inbox = [1, 1, 1], clock = 100\<rparr>,
                    calls := [Call_millis, Call_available 7, Call_read 7 9, Call_close 7],
                    clients := [\<lparr>client = 0, timer_end = 5000\<rparr>]\<rparr>))
   \<and> serve_visit 1 (sim_server False 16 16 [c9, c7] [f_hi] over_limit_inbox 100) =
     Some (Inr ((sim_server False 16 16 [c9, c7] [f_hi] over_limit_inbox 100)
                  \<lparr>world := \<lparr>inbox = [1, 1, 1], clock = 100\<rparr>,
                    calls := [Call_millis, Call_available 7, Call_read 7 9, Call_close 7],
                    clients := [\<lparr>client = 9, timer_end = 5000\<rparr>,
                                \<lparr>client = 0, timer_end = 5000\<rparr>]\<rparr>))"
proof -
  let ?s = "sim_server False 16 16 [c7] [f_hi] over_limit_inbox 100"
  let ?t = "sim_server False 16 16 [c9, c7] [f_hi] over_limit_inbox 100"
  let ?w = "\<lparr>inbox = over_limit_inbox, clock = 100\<rparr>"
  let ?hdr = "[0x11, 0x27, 0, 0, 0, 0, 0, 0, 1] :: byte list"
  let ?w3 = "\<lparr>inbox = [1, 1, 1], clock = 100\<rparr>"
  have h1: "0 < length (clients ?s)" "client (clients ?s ! 0) = 7"
    "\<forall>j<(0::nat). client (clients ?s ! j) \<noteq> 7" "(7 :: client_t) \<noteq> 0"
    by (simp_all add: sim_eval)
  have h2: "millis ?s (world ?s) = (100, ?w)" "(100 :: 64 word) < timer_end (clients ?s ! 0)"
    by (simp_all add: sim_eval)
  have h3: "client_available ?s ?w 7 = (12, ?w)" "(9 :: 64 word) \<le> 12"
    by (simp_all add: sim_eval over_limit_inbox_def)
  have h4: "delivers ?s ?w 7 ?hdr ?w3" "length ?hdr = 9"
    by (simp_all add: sim_eval over_limit_inbox_def)
  have h5: "hard_limit ?s < psize (read_headers (char_signed ?s) ?hdr fresh_msg)
                \<or> hard_limit ?s < dsize (read_headers (char_signed ?s) ?hdr fresh_msg)"
    by (simp add: sim_eval read_headers_def char_to_uint_def fresh_msg_def)
  have g1: "1 < length (clients ?t)" "client (clients ?t ! 1) = 7"
    "\<forall>j<(1::nat). client (clients ?t ! j) \<noteq> 7" "(7 :: client_t) \<noteq> 0"
    by (simp_all add: sim_eval)
  have g2: "millis ?t (world ?t) = (100, ?w)" "(100 :: 64 word) < timer_end (clients ?t ! 1)"
    by (simp_all add: sim_eval)
  have g3: "client_available ?t ?w 7 = (12, ?w)" "(9 :: 64 word) \<le> 12"
    by (simp_all add: sim_eval over_limit_inbox_def)
  have g4: "delivers ?t ?w 7 ?hdr ?w3" "length ?hdr = 9"
    by (simp_all add: sim_eval over_limit_inbox_def)
  have g5: "hard_limit ?t < psize (read_headers (char_signed ?t) ?hdr fresh_msg)
                \<or> hard_limit ?t < dsize (read_headers (char_signed ?t) ?hdr fresh_msg)"
    by (simp add: sim_eval read_headers_def char_to_uint_def fresh_msg_def)
  from hard_limit_drop[OF h1 h2 h3 h4 h5] hard_limit_drop[OF g1 g2 g3 g4 g5] show ?thesis
    by (simp add: sim_eval)
qed

text \<open>
  Claim C8: when the deadline of an occupied slot is at or before the time \<open>millis\<close>
  returns at the start of its visit, the server writes one error response with code
  3000 (header, empty path, the bytes B8 0B) and then drops the client; whatever the
  transport does with the writes, the client is dropped after a nonempty part of that
  one response. And after a request was read in full, the deadline of the slot is the
  time \<open>millis\<close> returns then plus \<open>timer_ms\<close>, in 64-bit arithmetic. The client sits
  in the slot \<open>i\<close>, and no slot before \<open>i\<close> holds the same identifier.
\<close>

theorem client_deadline:
  fixes s :: "'e mfs_server" and hdr :: "byte list"
  defines "req \<equiv> read_headers (char_signed s) hdr fresh_msg"
  assumes slot: "i < length (clients s)" "client (clients s ! i) = c"
      "\<forall>j<i. client (clients s ! j) \<noteq> c" "c \<noteq> 0"
    and bufs: "buffers_ok s"
    and clock: "millis s (world s) = (now, w1)"
  shows "(timer_end (clients s ! i) \<le> now \<longrightarrow>
            (\<exists>k s'. serve_visit i s = Some (Inr s') \<and> 1 \<le> k \<and> k \<le> 3
               \<and> calls s' = calls s @ Call_millis
                     # take k [Call_write c [0, 0, 0, 0, 2, 0, 0, 0, 0x84], Call_write c [],
                               Call_write c [0xB8, 0x0B]]
                     @ [Call_close c]
               \<and> clients s' = (clients s)[i := (clients s ! i)\<lparr>client := 0\<rparr>])
            \<and> (accepts s w1 c [0, 0, 0, 0, 2, 0, 0, 0, 0x84] a1 \<and> accepts s a1 c [] a2
                 \<and> accepts s a2 c [0xB8, 0x0B] a3 \<longrightarrow>
                serve_visit i s =
                  Some (Inr (s\<lparr>world := client_killer s a3 c,
                                calls := calls s @ [Call_millis,
                                                    Call_write c [0, 0, 0, 0, 2, 0, 0, 0, 0x84],
                                                    Call_write c [], Call_write c [0xB8, 0x0B],
                                                    Call_close c],
                                data_buffer := (data_buffer s)[0 := 0xB8, 1 := 0x0B],
                                clients := (clients s)[i := (clients s ! i)\<lparr>client := 0\<rparr>]\<rparr>))))
         \<and> (now < timer_end (clients s ! i)
              \<and> client_available s w1 c = (avail, w2) \<and> 9 \<le> avail
              \<and> delivers s w2 c hdr w3 \<and> length hdr = 9
              \<and> psize req \<le> hard_limit s \<and> dsize req \<le> hard_limit s
              \<and> psize req \<le> path_bsize s \<and> dsize req \<le> data_bsize s
              \<and> delivers s w3 c pb w4 \<and> length pb = unat (psize req)
              \<and> delivers s w4 c db w5 \<and> length db = unat (dsize req)
              \<and> millis s w5 = (now2, w6) \<longrightarrow>
              (\<exists>r. serve_visit i s = Some r)
              \<and> (\<forall>s'. serve_visit i s = Some (Inr s') \<longrightarrow>
                     timer_end (clients s' ! i) = now2 + ucast (timer_ms s)))"
proof (intro conjI impI allI)
  assume "timer_end (clients s ! i) \<le> now"
  from timeout_always_drops[OF client_slot_first[OF slot(1-3)] slot(4) bufs clock this]
  show "\<exists>k s'. serve_visit i s = Some (Inr s') \<and> 1 \<le> k \<and> k \<le> 3
               \<and> calls s' = calls s @ Call_millis
                     # take k [Call_write c [0, 0, 0, 0, 2, 0, 0, 0, 0x84], Call_write c [],
                               Call_write c [0xB8, 0x0B]]
                     @ [Call_close c]
               \<and> clients s' = (clients s)[i := (clients s ! i)\<lparr>client := 0\<rparr>]" .
next
  assume "timer_end (clients s ! i) \<le> now"
    and "accepts s w1 c [0, 0, 0, 0, 2, 0, 0, 0, 0x84] a1 \<and> accepts s a1 c [] a2
                 \<and> accepts s a2 c [0xB8, 0x0B] a3"
  then show "serve_visit i s =
                  Some (Inr (s\<lparr>world := client_killer s a3 c,
                                calls := calls s @ [Call_millis,
                                                    Call_write c [0, 0, 0, 0, 2, 0, 0, 0, 0x84],
                                                    Call_write c [], Call_write c [0xB8, 0x0B],
                                                    Call_close c],
                                data_buffer := (data_buffer s)[0 := 0xB8, 1 := 0x0B],
                                clients := (clients s)[i := (clients s ! i)\<lparr>client := 0\<rparr>]\<rparr>))"
    using timeout_reply[OF client_slot_first[OF slot(1-3)] slot(4) bufs clock] by blast
next
  assume a: "now < timer_end (clients s ! i)
              \<and> client_available s w1 c = (avail, w2) \<and> 9 \<le> avail
              \<and> delivers s w2 c hdr w3 \<and> length hdr = 9
              \<and> psize req \<le> hard_limit s \<and> dsize req \<le> hard_limit s
              \<and> psize req \<le> path_bsize s \<and> dsize req \<le> data_bsize s
              \<and> delivers s w3 c pb w4 \<and> length pb = unat (psize req)
              \<and> delivers s w4 c db w5 \<and> length db = unat (dsize req)
              \<and> millis s w5 = (now2, w6)"
  note i = slot(1,2)
  let ?s3 = "s\<lparr>world := w5,
                     calls := calls s @ [Call_millis, Call_available c, Call_read c 9,
                                         Call_read c (length pb), Call_read c (length db)],
                     path_buffer := pb @ drop (length pb) (path_buffer s),
                     data_buffer := db @ drop (length db) (data_buffer s)\<rparr>"
  let ?req = "req\<lparr>data := Data_Buffer, path := Path_Buffer\<rparr>"
  have visit: "serve_visit i s = Some (handle_request ?req i ?s3)"
    by (rule serve_visit_request[where hdr = hdr and now = now and avail = avail
          and ?w1.0 = w1 and ?w2.0 = w2 and ?w3.0 = w3 and ?w4.0 = w4])
       (use a slot(1,2,4) bufs clock in \<open>simp_all add: req_def\<close>)
  then show "\<exists>r. serve_visit i s = Some r" by blast
  fix s'
  assume "serve_visit i s = Some (Inr s')"
  with visit have h: "handle_request ?req i ?s3 = Inr s'" by simp
  from a have m: "millis ?s3 (world ?s3) = (now2, w6)" by simp
  from handle_request_deadline[OF h m] i
  show "timer_end (clients s' ! i) = now2 + ucast (timer_ms s)" by simp
qed

theorem client_deadline_witness:
  "serve_visit 1 (sim_server False 16 16 [c9, c7] [f_hi] [] 5000) =
     Some (Inr ((sim_server False 16 16 [c9, c7] [f_hi] [] 5000)
                  \<lparr>calls := [Call_millis, Call_write 7 [0, 0, 0, 0, 2, 0, 0, 0, 0x84],
                             Call_write 7 [], Call_write 7 [0xB8, 0x0B], Call_close 7],
                    data_buffer := (replicate 16 0)[0 := 0xB8, 1 := 0x0B],
                    clients := [\<lparr>client = 9, timer_end = 5000\<rparr>,
                                \<lparr>client = 0, timer_end = 5000\<rparr>]\<rparr>))
   \<and> serve_visit 1 (sim_server False 16 16 [c9, c7] [f_hi] noop_inbox 100) =
     Some (Inr ((sim_server False 16 16 [c9, c7] [f_hi] noop_inbox 100)
                  \<lparr>world := \<lparr>inbox = [], clock = 100\<rparr>,
                    calls := [Call_millis, Call_available 7, Call_read 7 9, Call_read 7 0,
                             Call_read 7 0, Call_millis,
                             Call_write 7 [0, 0, 0, 0, 0, 0, 0, 0, 0x80], Call_write 7 [],
                             Call_write 7 []],
                    clients := [\<lparr>client = 9, timer_end = 5000\<rparr>,
                                \<lparr>client = 7, timer_end = 20100\<rparr>]\<rparr>))"
proof -
  let ?a = "sim_server False 16 16 [c9, c7] [f_hi] [] 5000"
  let ?wa = "\<lparr>inbox = [], clock = 5000\<rparr>"
  let ?b = "sim_server False 16 16 [c9, c7] [f_hi] noop_inbox 100"
  let ?wb = "\<lparr>inbox = noop_inbox, clock = 100\<rparr>"
  let ?w0 = "\<lparr>inbox = [], clock = 100\<rparr>"
  let ?rb = "(sim_server False 16 16 [c9, c7] [f_hi] noop_inbox 100)
                  \<lparr>world := \<lparr>inbox = [], clock = 100\<rparr>,
                    calls := [Call_millis, Call_available 7, Call_read 7 9, Call_read 7 0,
                             Call_read 7 0, Call_millis,
                             Call_write 7 [0, 0, 0, 0, 0, 0, 0, 0, 0x80], Call_write 7 [],
                             Call_write 7 []],
                    clients := [\<lparr>client = (9 :: client_t), timer_end = 5000\<rparr>,
                                \<lparr>client = (7 :: client_t), timer_end = 20100\<rparr>]\<rparr>"
  have a1: "1 < length (clients ?a)" "client (clients ?a ! 1) = 7"
    "\<forall>j<(1::nat). client (clients ?a ! j) \<noteq> 7" "(7 :: client_t) \<noteq> 0" "buffers_ok ?a"
    "millis ?a (world ?a) = (5000, ?wa)"
    by (simp_all add: sim_eval)
  have a2: "timer_end (clients ?a ! 1) \<le> 5000"
    "accepts ?a ?wa 7 [0, 0, 0, 0, 2, 0, 0, 0, 0x84] ?wa \<and> accepts ?a ?wa 7 [] ?wa
       \<and> accepts ?a ?wa 7 [0xB8, 0x0B] ?wa"
    by (simp_all add: sim_eval)
  from client_deadline[OF a1, of ?wa ?wa ?wa] a2
  have A: "serve_visit 1 ?a =
     Some (Inr (?a\<lparr>world := client_killer ?a ?wa 7,
                    calls := calls ?a @ [Call_millis, Call_write 7 [0, 0, 0, 0, 2, 0, 0, 0, 0x84],
                             Call_write 7 [], Call_write 7 [0xB8, 0x0B], Call_close 7],
                    data_buffer := (data_buffer ?a)[0 := 0xB8, 1 := 0x0B],
                    clients := (clients ?a)[1 := (clients ?a ! 1)\<lparr>client := 0\<rparr>]\<rparr>))"
    by blast
  have b1: "1 < length (clients ?b)" "client (clients ?b ! 1) = 7"
    "\<forall>j<(1::nat). client (clients ?b ! j) \<noteq> 7" "(7 :: client_t) \<noteq> 0" "buffers_ok ?b"
    "millis ?b (world ?b) = (100, ?wb)"
    by (simp_all add: sim_eval)
  have b2: "100 < timer_end (clients ?b ! 1)
              \<and> client_available ?b ?wb 7 = (9, ?wb) \<and> (9 :: 64 word) \<le> 9
              \<and> delivers ?b ?wb 7 noop_inbox ?w0 \<and> length noop_inbox = 9
              \<and> psize (read_headers (char_signed ?b) noop_inbox fresh_msg) \<le> hard_limit ?b
              \<and> dsize (read_headers (char_signed ?b) noop_inbox fresh_msg) \<le> hard_limit ?b
              \<and> psize (read_headers (char_signed ?b) noop_inbox fresh_msg) \<le> path_bsize ?b
              \<and> dsize (read_headers (char_signed ?b) noop_inbox fresh_msg) \<le> data_bsize ?b
              \<and> delivers ?b ?w0 7 [] ?w0
              \<and> length ([] :: byte list) = unat (psize (read_headers (char_signed ?b) noop_inbox fresh_msg))
              \<and> delivers ?b ?w0 7 [] ?w0
              \<and> length ([] :: byte list) = unat (dsize (read_headers (char_signed ?b) noop_inbox fresh_msg))
              \<and> millis ?b ?w0 = (100, ?w0)"
    by (simp add: sim_eval noop_inbox_def read_headers_def char_to_uint_def fresh_msg_def)
  have run: "serve_visit 1 ?b = Some (Inr ?rb)"
    by (simp add: sim_eval noop_inbox_def server_eval lookup_eval f_hi_def hi_def)
  from client_deadline[OF b1, of _ _ _ 9 ?wb noop_inbox ?w0 "[]" ?w0 "[]" ?w0 100 ?w0] b2
  have "\<forall>s'. serve_visit 1 ?b = Some (Inr s') \<longrightarrow>
           timer_end (clients s' ! 1) = 100 + ucast (timer_ms ?b)"
    by blast
  with run have B: "timer_end (clients ?rb ! 1) = 100 + ucast (timer_ms ?b)" by blast
  from A run B show ?thesis
    by (simp add: sim_eval)
qed

text \<open>
  Claim C6, as the code has it: the lookup of the file comes before the opcode, and a
  request whose path resolves to no slot is answered with error 1000 unless its opcode
  is LS or NOOP. Opcode 29 with an empty path on a table with no free slot gets error
  1000, not the NOOP response.
\<close>

theorem reserved_opcode_without_file:
  "serve_visit 0 (sim_server False 16 16 [c7] [f_hi] reserved_no_path_inbox 100) =
     Some (Inr ((sim_server False 16 16 [c7] [f_hi] reserved_no_path_inbox 100)
                  \<lparr>world := \<lparr>inbox = [], clock = 100\<rparr>,
                    calls := [Call_millis, Call_available 7, Call_read 7 9, Call_read 7 0,
                             Call_read 7 0, Call_millis,
                             Call_write 7 [0, 0, 0, 0, 2, 0, 0, 0, 0x84], Call_write 7 [],
                             Call_write 7 [0xE8, 0x03]],
                    data_buffer := (replicate 16 0)[0 := 0xE8, 1 := 0x03],
                    clients := [\<lparr>client = 7, timer_end = 20100\<rparr>]\<rparr>))"
  by (simp add: sim_eval reserved_no_path_inbox_def server_eval lookup_eval f_hi_def hi_def
      replicate_numeral)

text \<open>
  Claim C6, amended: for every request read in full whose opcode is none of NOOP, READ,
  WRITE, LS and ERROR: when its path lookup resolves to a slot of the file table, an
  opcode below 30 is answered with the NOOP response (psize 0, dsize 0, op 0x80), and an
  opcode of 30 or more with an error response of code 3003 that echoes the path; when
  the lookup returns -1, the answer is the error response of code 1000 that echoes the
  path. Where the transport takes the response the client is kept, with its deadline
  reset.
\<close>

theorem unlisted_opcode_reply:
  fixes s :: "'e mfs_server" and hdr :: "byte list"
  defines "req \<equiv> read_headers (char_signed s) hdr fresh_msg"
  assumes slot: "i < length (clients s)" "client (clients s ! i) = c" "c \<noteq> 0"
    and bufs: "buffers_ok s"
    and clock: "millis s (world s) = (now, w1)" "now < timer_end (clients s ! i)"
    and avail: "client_available s w1 c = (avail, w2)" "9 \<le> avail"
    and header: "delivers s w2 c hdr w3" "length hdr = 9"
    and fits: "psize req \<le> hard_limit s" "dsize req \<le> hard_limit s"
      "psize req \<le> path_bsize s" "dsize req \<le> data_bsize s"
    and body: "delivers s w3 c pb w4" "length pb = unat (psize req)"
      "delivers s w4 c db w5" "length db = unat (dsize req)"
    and clock2: "millis s w5 = (now2, w6)"
    and lookup: "strlen (Some pb) (psize req) = Inr len"
      "get_file_index (files s) (Some pb) len = Inr fi"
    and opc: "op req \<notin> {OP_NOOP, OP_READ, OP_WRITE, OP_LS, OP_ERROR}"
  shows "(fi \<noteq> - 1 \<and> op req < MFS_RESERVED_OP_RANGE
            \<and> accepts s w6 c [0, 0, 0, 0, 0, 0, 0, 0, 0x80] a1 \<and> accepts s a1 c [] a2
            \<and> accepts s a2 c [] a3 \<longrightarrow>
          serve_visit i s =
            Some (Inr (s\<lparr>world := a3,
                          calls := calls s @ [Call_millis, Call_available c, Call_read c 9,
                                              Call_read c (length pb), Call_read c (length db),
                                              Call_millis,
                                              Call_write c [0, 0, 0, 0, 0, 0, 0, 0, 0x80],
                                              Call_write c [], Call_write c []],
                          path_buffer := pb @ drop (length pb) (path_buffer s),
                          data_buffer := db @ drop (length db) (data_buffer s),
                          clients := (clients s)
                            [i := (clients s ! i)\<lparr>timer_end := now2 + ucast (timer_ms s)\<rparr>]\<rparr>)))
       \<and> (fi \<noteq> - 1 \<and> MFS_RESERVED_OP_RANGE \<le> op req
            \<and> accepts s w6 c (take 4 (fill_headers req) @ [2, 0, 0, 0, 0x84]) a1
            \<and> accepts s a1 c pb a2 \<and> accepts s a2 c [0xBB, 0x0B] a3 \<longrightarrow>
          serve_visit i s =
            Some (Inr (s\<lparr>world := a3,
                          calls := calls s @ [Call_millis, Call_available c, Call_read c 9,
                                              Call_read c (length pb), Call_read c (length db),
                                              Call_millis,
                                              Call_write c (take 4 (fill_headers req) @ [2, 0, 0, 0, 0x84]),
                                              Call_write c pb, Call_write c [0xBB, 0x0B]],
                          path_buffer := pb @ drop (length pb) (path_buffer s),
                          data_buffer := (db @ drop (length db) (data_buffer s))[0 := 0xBB, 1 := 0x0B],
                          clients := (clients s)
                            [i := (clients s ! i)\<lparr>timer_end := now2 + ucast (timer_ms s)\<rparr>]\<rparr>)))
       \<and> (fi = - 1
            \<and> accepts s w6 c (take 4 (fill_headers req) @ [2, 0, 0, 0, 0x84]) a1
            \<and> accepts s a1 c pb a2 \<and> accepts s a2 c [0xE8, 0x03] a3 \<longrightarrow>
          serve_visit i s =
            Some (Inr (s\<lparr>world := a3,
                          calls := calls s @ [Call_millis, Call_available c, Call_read c 9,
                                              Call_read c (length pb), Call_read c (length db),
                                              Call_millis,
                                              Call_write c (take 4 (fill_headers req) @ [2, 0, 0, 0, 0x84]),
                                              Call_write c pb, Call_write c [0xE8, 0x03]],
                          path_buffer := pb @ drop (length pb) (path_buffer s),
                          data_buffer := (db @ drop (length db) (data_buffer s))[0 := 0xE8, 1 := 0x03],
                          clients := (clients s)
                            [i := (clients s ! i)\<lparr>timer_end := now2 + ucast (timer_ms s)\<rparr>]\<rparr>)))"
proof -
  let ?s3 = "s\<lparr>world := w5,
                     calls := calls s @ [Call_millis, Call_available c, Call_read c 9,
                                         Call_read c (length pb), Call_read c (length db)],
                     path_buffer := pb @ drop (length pb) (path_buffer s),
                     data_buffer := db @ drop (length db) (data_buffer s)\<rparr>"
  let ?req = "req\<lparr>data := Data_Buffer, path := Path_Buffer\<rparr>"
  let ?s5 = "?s3\<lparr>world := w6, calls := calls ?s3 @ [Call_millis],
                clients := (clients ?s3)[i := (clients ?s3 ! i)\<lparr>timer_end := now2 + ucast (timer_ms ?s3)\<rparr>]\<rparr>"
  have visit: "serve_visit i s = Some (handle_request ?req i ?s3)"
    by (rule serve_visit_request[where hdr = hdr and now = now and avail = avail
          and ?w1.0 = w1 and ?w2.0 = w2 and ?w3.0 = w3 and ?w4.0 = w4])
       (use slot bufs clock avail header fits body in \<open>simp_all add: req_def\<close>)
  have resolved: "handle_request ?req i ?s3 = dispatch ?req fi i ?s5" if "fi \<noteq> - 1"
    by (rule handle_request_resolved[where pb = pb and len = len and rest = "drop (length pb) (path_buffer s)"])
       (use slot clock2 body lookup that in simp_all)
  from opc have ops: "op ?req \<noteq> OP_ERROR" "op ?req \<noteq> OP_LS" "op ?req \<noteq> OP_NOOP"
    "op ?req \<noteq> OP_READ" "op ?req \<noteq> OP_WRITE"
    by simp_all
  from fits bufs body have lens: "length pb \<le> length (path_buffer s)"
    "length db \<le> length (data_buffer s)" "2 \<le> length (data_buffer s)"
    by (auto simp: buffers_ok_def word_le_nat_alt)
  have t4: "take 4 (fill_headers ?req) = take 4 (fill_headers req)"
    by (simp add: fill_headers_def)
  have reg: "region ?s5 (path ?req) (unat (psize ?req)) = Inr pb"
    using body(2) lens by (simp add: region_def)
  show ?thesis
  proof (intro conjI impI)
    assume a: "fi \<noteq> - 1 \<and> op req < MFS_RESERVED_OP_RANGE
            \<and> accepts s w6 c [0, 0, 0, 0, 0, 0, 0, 0, 0x80] a1 \<and> accepts s a1 c [] a2
            \<and> accepts s a2 c [] a3"
    then have hr: "handle_request ?req i ?s3 = dispatch ?req fi i ?s5"
      using resolved by blast
    have hd: "fill_headers noop_response = [0, 0, 0, 0, 0, 0, 0, 0, 0x80]"
      by (simp add: fill_headers_def noop_response_def RESPONSE_OF_def OP_NOOP_def)
    have "send_mfs_message noop_response c ?s5 =
           Inr (0, ?s5\<lparr>world := a3,
                      calls := calls ?s5 @ [Call_write c (fill_headers noop_response), Call_write c [],
                                          Call_write c []]\<rparr>)"
      by (rule send_mfs_message_accepted[where ?w1.0 = a1 and ?w2.0 = a2])
         (use a in \<open>simp_all add: hd accepts_def\<close>, simp_all add: region_def noop_response_def)
    with a ops slot show "serve_visit i s =
            Some (Inr (s\<lparr>world := a3,
                          calls := calls s @ [Call_millis, Call_available c, Call_read c 9,
                                              Call_read c (length pb), Call_read c (length db),
                                              Call_millis,
                                              Call_write c [0, 0, 0, 0, 0, 0, 0, 0, 0x80],
                                              Call_write c [], Call_write c []],
                          path_buffer := pb @ drop (length pb) (path_buffer s),
                          data_buffer := db @ drop (length db) (data_buffer s),
                          clients := (clients s)
                            [i := (clients s ! i)\<lparr>timer_end := now2 + ucast (timer_ms s)\<rparr>]\<rparr>))"
      by (simp add: visit hr dispatch_def hd)
  next
    assume a: "fi \<noteq> - 1 \<and> MFS_RESERVED_OP_RANGE \<le> op req
            \<and> accepts s w6 c (take 4 (fill_headers req) @ [2, 0, 0, 0, 0x84]) a1
            \<and> accepts s a1 c pb a2 \<and> accepts s a2 c [0xBB, 0x0B] a3"
    then have hr: "handle_request ?req i ?s3 = dispatch ?req fi i ?s5"
      using resolved by blast
    from a have nlt: "(op req < MFS_RESERVED_OP_RANGE) = False" by (simp add: not_less)
    have code: "[ucast ((3003 :: 16 word) AND 0xFF), ucast (drop_bit 8 (3003 :: 16 word) AND 0xFF)]
                = [0xBB, 0x0B :: byte]"
      by simp
    have "send_mfs_error ?req c 3003 ?s5 =
           Inr (0, ?s5\<lparr>world := a3,
                      calls := calls ?s5 @ [Call_write c (take 4 (fill_headers ?req) @ [2, 0, 0, 0, 0x84]),
                                          Call_write c pb,
                                          Call_write c [ucast ((3003 :: 16 word) AND 0xFF), ucast (drop_bit 8 (3003 :: 16 word) AND 0xFF)]],
                      data_buffer := (data_buffer ?s5)[0 := ucast ((3003 :: 16 word) AND 0xFF), 1 := ucast (drop_bit 8 (3003 :: 16 word) AND 0xFF)]\<rparr>)"
      by (rule send_mfs_error_accepted[where ?w1.0 = a1 and ?w2.0 = a2])
         (use a reg lens body(2) in \<open>simp_all add: accepts_def t4\<close>)
    with ops slot nlt show "serve_visit i s =
            Some (Inr (s\<lparr>world := a3,
                          calls := calls s @ [Call_millis, Call_available c, Call_read c 9,
                                              Call_read c (length pb), Call_read c (length db),
                                              Call_millis,
                                              Call_write c (take 4 (fill_headers req) @ [2, 0, 0, 0, 0x84]),
                                              Call_write c pb, Call_write c [0xBB, 0x0B]],
                          path_buffer := pb @ drop (length pb) (path_buffer s),
                          data_buffer := (db @ drop (length db) (data_buffer s))[0 := 0xBB, 1 := 0x0B],
                          clients := (clients s)
                            [i := (clients s ! i)\<lparr>timer_end := now2 + ucast (timer_ms s)\<rparr>]\<rparr>))"
      by (simp add: visit hr dispatch_def t4)
  next
    assume a: "fi = - 1
            \<and> accepts s w6 c (take 4 (fill_headers req) @ [2, 0, 0, 0, 0x84]) a1
            \<and> accepts s a1 c pb a2 \<and> accepts s a2 c [0xE8, 0x03] a3"
    have hr: "handle_request ?req i ?s3 =
                map_sum id snd (send_mfs_error ?req (client (clients ?s3 ! i)) 1000 ?s5)"
      by (rule handle_request_unresolved[where pb = pb and len = len
            and rest = "drop (length pb) (path_buffer s)"])
         (use slot clock2 body lookup a ops in simp_all)
    have "send_mfs_error ?req c 1000 ?s5 =
           Inr (0, ?s5\<lparr>world := a3,
                      calls := calls ?s5 @ [Call_write c (take 4 (fill_headers ?req) @ [2, 0, 0, 0, 0x84]),
                                          Call_write c pb,
                                          Call_write c [ucast ((1000 :: 16 word) AND 0xFF), ucast (drop_bit 8 (1000 :: 16 word) AND 0xFF)]],
                      data_buffer := (data_buffer ?s5)[0 := ucast ((1000 :: 16 word) AND 0xFF), 1 := ucast (drop_bit 8 (1000 :: 16 word) AND 0xFF)]\<rparr>)"
      by (rule send_mfs_error_accepted[where ?w1.0 = a1 and ?w2.0 = a2])
         (use a reg lens body(2) in \<open>simp_all add: accepts_def t4\<close>)
    with slot show "serve_visit i s =
            Some (Inr (s\<lparr>world := a3,
                          calls := calls s @ [Call_millis, Call_available c, Call_read c 9,
                                              Call_read c (length pb), Call_read c (length db),
                                              Call_millis,
                                              Call_write c (take 4 (fill_headers req) @ [2, 0, 0, 0, 0x84]),
                                              Call_write c pb, Call_write c [0xE8, 0x03]],
                          path_buffer := pb @ drop (length pb) (path_buffer s),
                          data_buffer := (db @ drop (length db) (data_buffer s))[0 := 0xE8, 1 := 0x03],
                          clients := (clients s)
                            [i := (clients s ! i)\<lparr>timer_end := now2 + ucast (timer_ms s)\<rparr>]\<rparr>))"
      by (simp add: visit hr t4)
  qed
qed

theorem unlisted_opcode_reply_witness:
  "serve_visit 0 (sim_server False 16 16 [c7] [f_hi] reserved_inbox 100) =
     Some (Inr ((sim_server False 16 16 [c7] [f_hi] reserved_inbox 100)
                  \<lparr>world := \<lparr>inbox = [], clock = 100\<rparr>,
                    calls := [Call_millis, Call_available 7, Call_read 7 9, Call_read 7 3,
                             Call_read 7 0, Call_millis,
                             Call_write 7 [0, 0, 0, 0, 0, 0, 0, 0, 0x80], Call_write 7 [],
                             Call_write 7 []],
                    path_buffer := [0x68, 0x69, 0] @ drop 3 (replicate 16 0),
                    clients := [\<lparr>client = 7, timer_end = 20100\<rparr>]\<rparr>))
   \<and> serve_visit 0 (sim_server False 16 16 [c7] [f_hi] illegal_inbox 100) =
     Some (Inr ((sim_server False 16 16 [c7] [f_hi] illegal_inbox 100)
                  \<lparr>world := \<lparr>inbox = [], clock = 100\<rparr>,
                    calls := [Call_millis, Call_available 7, Call_read 7 9, Call_read 7 3,
                             Call_read 7 0, Call_millis,
                             Call_write 7 [3, 0, 0, 0, 2, 0, 0, 0, 0x84],
                             Call_write 7 [0x68, 0x69, 0], Call_write 7 [0xBB, 0x0B]],
                    path_buffer := [0x68, 0x69, 0] @ drop 3 (replicate 16 0),
                    data_buffer := (replicate 16 0)[0 := 0xBB, 1 := 0x0B],
                    clients := [\<lparr>client = 7, timer_end = 20100\<rparr>]\<rparr>))
   \<and> serve_visit 0 (sim_server False 16 16 [c7] [f_hi] reserved_unknown_inbox 100) =
     Some (Inr ((sim_server False 16 16 [c7] [f_hi] reserved_unknown_inbox 100)
                  \<lparr>world := \<lparr>inbox = [], clock = 100\<rparr>,
                    calls := [Call_millis, Call_available 7, Call_read 7 9, Call_read 7 3,
                             Call_read 7 0, Call_millis,
                             Call_write 7 [3, 0, 0, 0, 2, 0, 0, 0, 0x84],
                             Call_write 7 [0x6E, 0x6F, 0], Call_write 7 [0xE8, 0x03]],
                    path_buffer := [0x6E, 0x6F, 0] @ drop 3 (replicate 16 0),
                    data_buffer := (replicate 16 0)[0 := 0xE8, 1 := 0x03],
                    clients := [\<lparr>client = 7, timer_end = 20100\<rparr>]\<rparr>))"
proof -
  let ?a = "sim_server False 16 16 [c7] [f_hi] reserved_inbox 100"
  let ?b = "sim_server False 16 16 [c7] [f_hi] illegal_inbox 100"
  let ?d = "sim_server False 16 16 [c7] [f_hi] reserved_unknown_inbox 100"
  let ?wa = "\<lparr>inbox = reserved_inbox, clock = 100\<rparr>"
  let ?wb = "\<lparr>inbox = illegal_inbox, clock = 100\<rparr>"
  let ?wd = "\<lparr>inbox = reserved_unknown_inbox, clock = 100\<rparr>"
  let ?w1 = "\<lparr>inbox = [0x68, 0x69, 0], clock = 100\<rparr>"
  let ?v1 = "\<lparr>inbox = [0x6E, 0x6F, 0], clock = 100\<rparr>"
  let ?w0 = "\<lparr>inbox = [], clock = 100\<rparr>"
  let ?ha = "[3, 0, 0, 0, 0, 0, 0, 0, 29] :: byte list"
  let ?hb = "[3, 0, 0, 0, 0, 0, 0, 0, 30] :: byte list"
  let ?p = "[0x68, 0x69, 0] :: byte list"
  let ?q = "[0x6E, 0x6F, 0] :: byte list"
  note ev = sim_eval reserved_inbox_def illegal_inbox_def reserved_unknown_inbox_def
    read_headers_def char_to_uint_def
    fresh_msg_def lookup_eval f_hi_def hi_def OP_NOOP_def OP_READ_def OP_WRITE_def OP_LS_def
    OP_ERROR_def MFS_RESERVED_OP_RANGE_def fill_headers_def
  have A: "((0::int) \<noteq> - 1 \<and> op (read_headers (char_signed ?a) ?ha fresh_msg) < MFS_RESERVED_OP_RANGE
            \<and> accepts ?a ?w0 7 [0, 0, 0, 0, 0, 0, 0, 0, 0x80] ?w0 \<and> accepts ?a ?w0 7 [] ?w0
            \<and> accepts ?a ?w0 7 [] ?w0 \<longrightarrow>
          serve_visit 0 ?a =
            Some (Inr (?a\<lparr>world := ?w0,
                          calls := calls ?a @ [Call_millis, Call_available 7, Call_read 7 9,
                                              Call_read 7 (length ?p), Call_read 7 (length ([] :: byte list)),
                                              Call_millis,
                                              Call_write 7 [0, 0, 0, 0, 0, 0, 0, 0, 0x80],
                                              Call_write 7 [], Call_write 7 []],
                          path_buffer := ?p @ drop (length ?p) (path_buffer ?a),
                          data_buffer := [] @ drop (length ([] :: byte list)) (data_buffer ?a),
                          clients := (clients ?a)
                            [0 := (clients ?a ! 0)\<lparr>timer_end := 100 + ucast (timer_ms ?a)\<rparr>]\<rparr>)))"
    by (rule unlisted_opcode_reply[where now = 100 and ?w1.0 = ?wa and avail = 12 and ?w2.0 = ?wa
          and hdr = ?ha and ?w3.0 = ?w1 and pb = ?p and ?w4.0 = ?w0 and db = "[]" and ?w5.0 = ?w0
          and ?w6.0 = ?w0 and ?now2.0 = 100 and len = 2 and fi = 0, THEN conjunct1])
       (simp_all add: ev)
  have B: "((0::int) \<noteq> - 1 \<and> MFS_RESERVED_OP_RANGE \<le> op (read_headers (char_signed ?b) ?hb fresh_msg)
            \<and> accepts ?b ?w0 7 (take 4 (fill_headers (read_headers (char_signed ?b) ?hb fresh_msg)) @ [2, 0, 0, 0, 0x84]) ?w0
            \<and> accepts ?b ?w0 7 ?p ?w0 \<and> accepts ?b ?w0 7 [0xBB, 0x0B] ?w0 \<longrightarrow>
          serve_visit 0 ?b =
            Some (Inr (?b\<lparr>world := ?w0,
                          calls := calls ?b @ [Call_millis, Call_available 7, Call_read 7 9,
                                              Call_read 7 (length ?p), Call_read 7 (length ([] :: byte list)),
                                              Call_millis,
                                              Call_write 7 (take 4 (fill_headers (read_headers (char_signed ?b) ?hb fresh_msg)) @ [2, 0, 0, 0, 0x84]),
                                              Call_write 7 ?p, Call_write 7 [0xBB, 0x0B]],
                          path_buffer := ?p @ drop (length ?p) (path_buffer ?b),
                          data_buffer := ([] @ drop (length ([] :: byte list)) (data_buffer ?b))[0 := 0xBB, 1 := 0x0B],
                          clients := (clients ?b)
                            [0 := (clients ?b ! 0)\<lparr>timer_end := 100 + ucast (timer_ms ?b)\<rparr>]\<rparr>)))"
    by (rule unlisted_opcode_reply[where now = 100 and ?w1.0 = ?wb and avail = 12 and ?w2.0 = ?wb
          and hdr = ?hb and ?w3.0 = ?w1 and pb = ?p and ?w4.0 = ?w0 and db = "[]" and ?w5.0 = ?w0
          and ?w6.0 = ?w0 and ?now2.0 = 100 and len = 2 and fi = 0, THEN conjunct2, THEN conjunct1])
       (simp_all add: ev)
  have D: "((- 1 :: int) = - 1
            \<and> accepts ?d ?w0 7 (take 4 (fill_headers (read_headers (char_signed ?d) ?ha fresh_msg)) @ [2, 0, 0, 0, 0x84]) ?w0
            \<and> accepts ?d ?w0 7 ?q ?w0 \<and> accepts ?d ?w0 7 [0xE8, 0x03] ?w0 \<longrightarrow>
          serve_visit 0 ?d =
            Some (Inr (?d\<lparr>world := ?w0,
                          calls := calls ?d @ [Call_millis, Call_available 7, Call_read 7 9,
                                              Call_read 7 (length ?q), Call_read 7 (length ([] :: byte list)),
                                              Call_millis,
                                              Call_write 7 (take 4 (fill_headers (read_headers (char_signed ?d) ?ha fresh_msg)) @ [2, 0, 0, 0, 0x84]),
                                              Call_write 7 ?q, Call_write 7 [0xE8, 0x03]],
                          path_buffer := ?q @ drop (length ?q) (path_buffer ?d),
                          data_buffer := ([] @ drop (length ([] :: byte list)) (data_buffer ?d))[0 := 0xE8, 1 := 0x03],
                          clients := (clients ?d)
                            [0 := (clients ?d ! 0)\<lparr>timer_end := 100 + ucast (timer_ms ?d)\<rparr>]\<rparr>)))"
    by (rule unlisted_opcode_reply[where now = 100 and ?w1.0 = ?wd and avail = 12 and ?w2.0 = ?wd
          and hdr = ?ha and ?w3.0 = ?v1 and pb = ?q and ?w4.0 = ?w0 and db = "[]" and ?w5.0 = ?w0
          and ?w6.0 = ?w0 and ?now2.0 = 100 and len = 2 and fi = "- 1", THEN conjunct2, THEN conjunct2])
       (simp_all add: ev)
  from A B D show ?thesis
    by (simp add: ev replicate_numeral)
qed

text \<open>
  What the server does with an oversized request in general. When the sizes decoded
  from the header are within the hard limit and one of them exceeds the capacity of its
  buffer, on a transport that never fails a read of this client, the server reads the
  path (in full when it fits the path buffer), then reads \<open>dsize\<close> bytes in chunks of at
  most the capacity of the data buffer, writes one error response with code 1 (all of it
  when the transport takes the writes), and then drops the client: the close callback is
  called once and the slot is cleared.
\<close>

lemma oversize_request_drained:
  fixes s :: "'e mfs_server" and hdr :: "byte list"
  defines "req \<equiv> read_headers (char_signed s) hdr fresh_msg"
  assumes slot: "i < length (clients s)" "client (clients s ! i) = c"
      "\<forall>j<i. client (clients s ! j) \<noteq> c" "c \<noteq> 0"
    and bufs: "buffers_ok s"
    and rel: "always_delivers s c"
    and clock: "millis s (world s) = (now, w1)" "now < timer_end (clients s ! i)"
    and avail: "client_available s w1 c = (avail, w2)" "9 \<le> avail"
    and header: "delivers s w2 c hdr w3" "length hdr = 9"
    and within: "psize req \<le> hard_limit s" "dsize req \<le> hard_limit s"
    and over: "path_bsize s < psize req \<or> data_bsize s < dsize req"
  shows "\<exists>k s' P D. serve_visit i s = Some (Inr s')
           \<and> calls s' = calls s @ [Call_millis, Call_available c, Call_read c 9]
                 @ map (Call_read c) P @ map (Call_read c) D
                 @ take k [Call_write c [0, 0, 0, 0, 2, 0, 0, 0, 0x84], Call_write c [],
                           Call_write c [1, 0]]
                 @ [Call_close c]
           \<and> 1 \<le> k \<and> k \<le> 3 \<and> (always_accepts s c \<longrightarrow> k = 3)
           \<and> sum_list D = unat (dsize req)
           \<and> (\<forall>n\<in>set D. 0 < n \<and> n \<le> unat (data_bsize s))
           \<and> (psize req \<le> path_bsize s \<longrightarrow> sum_list P = unat (psize req))
           \<and> (\<forall>n\<in>set P. n \<le> unat (path_bsize s))
           \<and> clients s' = (clients s)[i := (clients s ! i)\<lparr>client := 0\<rparr>]"
proof -
  from client_slot_first[OF slot(1-3)] have found: "client_slot c (clients s) = Some i" .
  from clock(2) have nle: "(timer_end (clients s ! i) \<le> now) = False" by simp
  let ?s2 = "s\<lparr>world := w2, calls := calls s @ [Call_millis, Call_available c]\<rparr>"
  have "\<exists>w pbuf dbuf P D.
           read_mfs_message c ?s2 =
             answer_error c 1
               (?s2\<lparr>path_buffer := pbuf, world := w,
                  calls := calls ?s2 @ Call_read c 9 # map (Call_read c) P @ map (Call_read c) D,
                  data_buffer := dbuf\<rparr>)
           \<and> length dbuf = length (data_buffer ?s2)
           \<and> sum_list D = unat (dsize (read_headers (char_signed ?s2) hdr fresh_msg))
           \<and> (\<forall>n\<in>set D. 0 < n \<and> n \<le> unat (data_bsize ?s2))
           \<and> (psize (read_headers (char_signed ?s2) hdr fresh_msg) \<le> path_bsize ?s2
                \<longrightarrow> sum_list P = unat (psize (read_headers (char_signed ?s2) hdr fresh_msg)))
           \<and> (\<forall>n\<in>set P. n \<le> unat (path_bsize ?s2))"
    by (rule read_mfs_message_drains[where ?w1.0 = w3])
       (use bufs rel header within over in
         \<open>simp_all add: req_def buffers_ok_def delivers_def\<close>)
  then obtain w pbuf dbuf P D where
    rd: "read_mfs_message c ?s2 =
             answer_error c 1
               (?s2\<lparr>path_buffer := pbuf, world := w,
                  calls := calls ?s2 @ Call_read c 9 # map (Call_read c) P @ map (Call_read c) D,
                  data_buffer := dbuf\<rparr>)"
    and ld: "length dbuf = length (data_buffer s)"
    and facts: "sum_list D = unat (dsize req)"
      "\<forall>n\<in>set D. 0 < n \<and> n \<le> unat (data_bsize s)"
      "psize req \<le> path_bsize s \<longrightarrow> sum_list P = unat (psize req)"
      "\<forall>n\<in>set P. n \<le> unat (path_bsize s)"
    by (auto simp: req_def)
  let ?s3 = "?s2\<lparr>path_buffer := pbuf, world := w,
                  calls := calls ?s2 @ Call_read c 9 # map (Call_read c) P @ map (Call_read c) D,
                  data_buffer := dbuf\<rparr>"
  from bufs ld have l2: "2 \<le> length (data_buffer ?s3)" by (simp add: buffers_ok_def)
  have "\<exists>k r s4. send_mfs_error empty_error_msg c 1 ?s3 = Inr (r, s4) \<and> 1 \<le> k \<and> k \<le> 3
           \<and> (always_accepts ?s3 c \<longrightarrow> k = 3)
           \<and> calls (snd (drop_client (client (clients s4 ! i)) s4))
               = calls ?s3 @ take k [Call_write c [0, 0, 0, 0, 2, 0, 0, 0, 0x84], Call_write c [],
                                   Call_write c [ucast ((1 :: 16 word) AND 0xFF),
                                                 ucast (drop_bit 8 (1 :: 16 word) AND 0xFF)]]
                   @ [Call_close c]
           \<and> clients (snd (drop_client (client (clients s4 ! i)) s4))
               = (clients ?s3)[i := (clients ?s3 ! i)\<lparr>client := 0\<rparr>]"
    by (rule error_then_drop) (use found slot(4) l2 in \<open>simp_all add: empty_error_msg_def\<close>)
  then obtain k r s4 where
    se: "send_mfs_error empty_error_msg c 1 ?s3 = Inr (r, s4)"
    and k: "1 \<le> k" "k \<le> 3" "always_accepts s c \<longrightarrow> k = 3"
    and cl: "calls (snd (drop_client (client (clients s4 ! i)) s4))
               = calls s @ [Call_millis, Call_available c, Call_read c 9]
                 @ map (Call_read c) P @ map (Call_read c) D
                 @ take k [Call_write c [0, 0, 0, 0, 2, 0, 0, 0, 0x84], Call_write c [],
                           Call_write c [1, 0]]
                 @ [Call_close c]"
    and cs: "clients (snd (drop_client (client (clients s4 ! i)) s4))
               = (clients s)[i := (clients s ! i)\<lparr>client := 0\<rparr>]"
    by auto
  have sen: "data empty_error_msg = Null" "path empty_error_msg = Null"
    "dsize empty_error_msg = 0" "psize empty_error_msg = 0"
    by (simp_all add: empty_error_msg_def)
  have ans: "read_mfs_message c ?s2 = Some (Inr (empty_error_msg, s4))"
    using se by (simp add: rd answer_error_def)
  have "serve_visit i s = Some (Inr (snd (drop_client (client (clients s4 ! i)) s4)))"
    using slot(1,2,4) clock(1) avail
    by (simp add: serve_visit_def call_millis_def call_available_def nle ans sen)
  with facts k cl cs show ?thesis
    by - (rule exI[where x = k], rule exI[where x = "snd (drop_client (client (clients s4 ! i)) s4)"],
          rule exI[where x = P], rule exI[where x = D], simp)
qed

lemma oversize_request_drained_steady:
  "\<exists>s' P D. serve_visit 0 (sim_server True 16 16 [c7] [f_hi] oversize_inbox 100) = Some (Inr s')
     \<and> calls s' = [Call_millis, Call_available 7, Call_read 7 9]
           @ map (Call_read 7) P @ map (Call_read 7) D
           @ [Call_write 7 [0, 0, 0, 0, 2, 0, 0, 0, 0x84], Call_write 7 [],
              Call_write 7 [1, 0], Call_close 7]
     \<and> sum_list D = 100 \<and> sum_list P = 0
     \<and> clients s' = [\<lparr>client = 0, timer_end = 5000\<rparr>]"
proof -
  let ?s = "sim_server True 16 16 [c7] [f_hi] oversize_inbox 100"
  let ?w = "\<lparr>inbox = oversize_inbox, clock = 100\<rparr>"
  let ?hdr = "[0, 0, 0, 0, 100, 0, 0, 0, 2] :: byte list"
  let ?w3 = "\<lparr>inbox = replicate 100 1, clock = 100\<rparr>"
  note ev = sim_eval oversize_inbox_def read_headers_def char_to_uint_def fresh_msg_def
  have h1: "0 < length (clients ?s)" "client (clients ?s ! 0) = 7"
    "\<forall>j<(0::nat). client (clients ?s ! j) \<noteq> 7" "(7 :: client_t) \<noteq> 0" "buffers_ok ?s"
    by (simp_all add: ev)
  have h2: "millis ?s (world ?s) = (100, ?w)" "(100 :: 64 word) < timer_end (clients ?s ! 0)"
    "client_available ?s ?w 7 = (109, ?w)" "(9 :: 64 word) \<le> 109"
    "delivers ?s ?w 7 ?hdr ?w3" "length ?hdr = 9"
    by (simp_all add: ev)
  have h3: "psize (read_headers (char_signed ?s) ?hdr fresh_msg) \<le> hard_limit ?s"
    "dsize (read_headers (char_signed ?s) ?hdr fresh_msg) \<le> hard_limit ?s"
    "path_bsize ?s < psize (read_headers (char_signed ?s) ?hdr fresh_msg)
       \<or> data_bsize ?s < dsize (read_headers (char_signed ?s) ?hdr fresh_msg)"
    by (simp_all add: ev)
  have v: "unat (dsize (read_headers (char_signed ?s) ?hdr fresh_msg)) = 100"
    "psize (read_headers (char_signed ?s) ?hdr fresh_msg) \<le> path_bsize ?s"
    "unat (psize (read_headers (char_signed ?s) ?hdr fresh_msg)) = 0"
    by (simp_all add: ev)
  have cl: "calls ?s = []" "(clients ?s)[0 := (clients ?s ! 0)\<lparr>client := 0\<rparr>]
      = [\<lparr>client = 0, timer_end = 5000\<rparr>]"
    by (simp_all add: ev)
  from oversize_request_drained[OF h1 sim_steady(1) h2 h3]
  obtain k s' P D where r: "serve_visit 0 ?s = Some (Inr s')"
    "calls s' = calls ?s @ [Call_millis, Call_available 7, Call_read 7 9]
                 @ map (Call_read 7) P @ map (Call_read 7) D
                 @ take k [Call_write 7 [0, 0, 0, 0, 2, 0, 0, 0, 0x84], Call_write 7 [],
                           Call_write 7 [1, 0]]
                 @ [Call_close 7]"
    "always_accepts ?s 7 \<longrightarrow> k = 3"
    "sum_list D = unat (dsize (read_headers (char_signed ?s) ?hdr fresh_msg))"
    "psize (read_headers (char_signed ?s) ?hdr fresh_msg) \<le> path_bsize ?s
       \<longrightarrow> sum_list P = unat (psize (read_headers (char_signed ?s) ?hdr fresh_msg))"
    "clients s' = (clients ?s)[0 := (clients ?s ! 0)\<lparr>client := 0\<rparr>]"
    by blast
  from r(3) sim_steady(2) have k: "k = 3" by blast
  from r(1,2,4,5,6) show ?thesis
    unfolding k v cl
    by - (rule exI[where x = s'], rule exI[where x = P], rule exI[where x = D], simp add: v)
qed

text \<open>
  Claim C1: a request whose \<open>psize\<close> or \<open>dsize\<close> exceeds the capacity of its buffer
  and not the hard limit, and whose body the transport delivers, is drained and answered
  with error 1, and the client remains connected: its slot is not cleared and the close
  callback is not called. In the code \<open>read_mfs_message\<close> returns, after the drain and the
  error response, the message it returns for every failure, and \<open>serve_clients\<close> takes
  that message for a failed read and drops the client. With a data buffer of 16 bytes and
  a WRITE of 100 bytes of data, all delivered, the server reads the 100 bytes, writes
  error 1, then closes the client and clears its slot.
\<close>

theorem oversize_client_dropped:
  "serve_visit 0 (sim_server False 16 16 [c7] [f_hi] oversize_inbox 100) =
     Some (Inr ((sim_server False 16 16 [c7] [f_hi] oversize_inbox 100)
                  \<lparr>world := \<lparr>inbox = [], clock = 100\<rparr>,
                    calls := [Call_millis, Call_available 7, Call_read 7 9,
                             Call_read 7 16, Call_read 7 16, Call_read 7 16, Call_read 7 16,
                             Call_read 7 16, Call_read 7 16, Call_read 7 4,
                             Call_write 7 [0, 0, 0, 0, 2, 0, 0, 0, 0x84], Call_write 7 [],
                             Call_write 7 [1, 0], Call_close 7],
                    data_buffer := [1, 0] @ replicate 14 1,
                    clients := [\<lparr>client = 0, timer_end = 5000\<rparr>]\<rparr>))"
  by (simp add: sim_eval oversize_inbox_def server_eval drain_data.simps replicate_numeral)

text \<open>
  Claim C4: in the oversized branch the path payload is consumed in full, in chunks,
  before the data. The loop over the path leaves after its first chunk: of a path of ten
  bytes and a path buffer of four the server reads four bytes, and six stay unread in the
  stream when it answers.
\<close>

theorem oversize_path_read_once:
  "serve_visit 0 (sim_server False 4 16 [c7] [f_hi] long_path_inbox 100) =
     Some (Inr ((sim_server False 4 16 [c7] [f_hi] long_path_inbox 100)
                  \<lparr>world := \<lparr>inbox = replicate 6 0x61, clock = 100\<rparr>,
                    calls := [Call_millis, Call_available 7, Call_read 7 9, Call_read 7 4,
                             Call_write 7 [0, 0, 0, 0, 2, 0, 0, 0, 0x84], Call_write 7 [],
                             Call_write 7 [1, 0], Call_close 7],
                    path_buffer := replicate 4 0x61,
                    data_buffer := [1, 0] @ replicate 14 0,
                    clients := [\<lparr>client = 0, timer_end = 5000\<rparr>]\<rparr>))"
  by (simp add: sim_eval long_path_inbox_def server_eval drain_data.simps replicate_numeral)

text \<open>
  Claim C2: a READ whose path names no registered file is answered with error 1000
  and no handler is called. The lookup takes the length of the request path from
  \<open>strlen\<close>, which is 0 for a path without a zero byte, and the length 0 matches the
  first slot whose name has length 0: with a free slot in the table the READ of \<open>no\<close>
  resolves to the free slot and calls its reader, a null pointer.
\<close>

theorem read_of_unknown_file_on_free_slot:
  "serve_visit 0 (sim_server False 16 16 [c7] [f_hi, f_free] read_no_inbox 100) = Some (Inl Null_Call)
   \<and> strlen (Some [0x6E, 0x6F]) 2 = Inr 0
   \<and> get_file_index [f_hi, f_free] (Some [0x6E, 0x6F]) 0 = Inr 1
   \<and> reader_f ([f_hi, f_free] ! 1) = None"
  by (simp add: sim_eval read_no_inbox_def server_eval lookup_eval f_hi_def f_free_def hi_def
      replicate_numeral)

text \<open>
  Claim C5: in the streaming path of LS the header declares as \<open>dsize\<close> the number
  of bytes streamed. The total counts one terminator for every slot, free slots too, and
  the stream skips them: for the table of \<open>hi\<close> and a free slot and a data buffer of 3
  bytes the header declares 4 bytes and 3 are written.
\<close>

theorem ls_stream_declared_size:
  "list_files 7 (sim_server False 16 3 [c7] [f_hi, f_free] [] 100) =
     Inr ((sim_server False 16 3 [c7] [f_hi, f_free] [] 100)
            \<lparr>calls := [Call_write 7 [0, 0, 0, 0, 4, 0, 0, 0, 0x83],
                       Call_write 7 [0x68, 0x69], Call_write 7 [0]]\<rparr>)"
  by (simp add: sim_eval server_eval lookup_eval f_hi_def f_free_def hi_def replicate_numeral)

text \<open>
  Claim C10, as the code has it: with length 0 \<open>get_file_index\<close> returns the first
  slot whose name has string length 0, which need not be a free slot: a populated slot
  whose name is the empty string comes first here.
\<close>

theorem empty_name_before_free_slot:
  "get_file_index [f_unnamed, f_free] (Some []) 0 = Inr 0
   \<and> file_path ([f_unnamed, f_free] ! 0) = Some [0]
   \<and> file_path ([f_unnamed, f_free] ! 1) = None
   \<and> path_size ([f_unnamed, f_free] ! 1) = 0"
  by (simp add: lookup_eval f_unnamed_def f_free_def)

text \<open>
  Claim C10, amended: with length 0 \<open>get_file_index\<close> returns the first slot whose
  name has string length 0, be it a free slot (null path, \<open>path_size\<close> 0) or a populated
  slot whose name is empty, and not -1: when the slot \<open>i\<close> is such a slot and every slot
  before it holds a name of nonzero string length, the result is \<open>i\<close>. And a request in
  the path buffer whose path has no zero byte among its \<open>psize\<close> bytes is looked up with
  the length 0 that \<open>strlen\<close> gives, so it resolves to that slot.
\<close>

theorem unterminated_path_lookup:
  assumes "i < length fs"
    and "(file_path (fs ! i) = None \<and> path_size (fs ! i) = 0)
         \<or> strlen (file_path (fs ! i)) (path_size (fs ! i)) = Inr 0"
    and "\<forall>j<i. \<exists>len. strlen (file_path (fs ! j)) (path_size (fs ! j)) = Inr len \<and> len \<noteq> 0"
  shows "get_file_index fs pth 0 = Inr (int i)
         \<and> (path req = Path_Buffer \<and> files s = fs
              \<and> unat (psize req) \<le> length (path_buffer s)
              \<and> 0 \<notin> set (take (unat (psize req)) (path_buffer s)) \<longrightarrow>
            strlen (pointee s (path req)) (psize req) = Inr 0
            \<and> request_file_index req s = Inr (int i))"
proof -
  from assms(2) have z: "strlen (file_path (fs ! i)) (path_size (fs ! i)) = Inr 0"
    by (auto simp: strlen_def strlen_loop.simps)
  have g: "get_file_index fs p 0 = Inr (int i)" for p
    using file_scan_empty_name[OF assms(1) z assms(3), of 0 p]
    by (simp add: get_file_index_def nul_scan.simps)
  show ?thesis
  proof (intro conjI impI)
    show "get_file_index fs pth 0 = Inr (int i)" by (rule g)
  next
    assume a: "path req = Path_Buffer \<and> files s = fs
              \<and> unat (psize req) \<le> length (path_buffer s)
              \<and> 0 \<notin> set (take (unat (psize req)) (path_buffer s))"
    then show l: "strlen (pointee s (path req)) (psize req) = Inr 0"
      by (simp add: pointee_def strlen_unterminated)
    from a l show "request_file_index req s = Inr (int i)"
      by (simp add: request_file_index_def g)
  qed
qed

theorem unterminated_path_lookup_witness:
  "get_file_index [f_hi, f_free] (Some [0x6E, 0x6F]) 0 = Inr 1
   \<and> request_file_index \<lparr>psize = 2, dsize = 0, op = OP_READ, path = Path_Buffer, data = Data_Buffer\<rparr>
        ((sim_server False 4 4 [c7] [f_hi, f_free] [] 100)\<lparr>path_buffer := [0x6E, 0x6F, 0, 0]\<rparr>)
       = Inr 1
   \<and> get_file_index [f_hi, f_unnamed, f_free] (Some [0x6E, 0x6F]) 0 = Inr 1
   \<and> request_file_index \<lparr>psize = 2, dsize = 0, op = OP_READ, path = Path_Buffer, data = Data_Buffer\<rparr>
        ((sim_server False 4 4 [c7] [f_hi, f_unnamed, f_free] [] 100)\<lparr>path_buffer := [0x6E, 0x6F, 0, 0]\<rparr>)
       = Inr 1"
proof -
  let ?fs = "[f_hi, f_free]"
  let ?gs = "[f_hi, f_unnamed, f_free]"
  let ?s = "(sim_server False 4 4 [c7] ?fs [] 100)\<lparr>path_buffer := [0x6E, 0x6F, 0, 0]\<rparr>"
  let ?t = "(sim_server False 4 4 [c7] ?gs [] 100)\<lparr>path_buffer := [0x6E, 0x6F, 0, 0]\<rparr>"
  let ?req = "\<lparr>psize = 2, dsize = 0, op = OP_READ, path = Path_Buffer, data = Data_Buffer\<rparr>"
  have h: "(1::nat) < length ?fs"
    "(file_path (?fs ! 1) = None \<and> path_size (?fs ! 1) = 0)
       \<or> strlen (file_path (?fs ! 1)) (path_size (?fs ! 1)) = Inr 0"
    "\<forall>j<(1::nat). \<exists>len. strlen (file_path (?fs ! j)) (path_size (?fs ! j)) = Inr len \<and> len \<noteq> 0"
    by (simp_all add: f_free_def f_hi_def hi_def lookup_eval)
  have k: "(1::nat) < length ?gs"
    "(file_path (?gs ! 1) = None \<and> path_size (?gs ! 1) = 0)
       \<or> strlen (file_path (?gs ! 1)) (path_size (?gs ! 1)) = Inr 0"
    "\<forall>j<(1::nat). \<exists>len. strlen (file_path (?gs ! j)) (path_size (?gs ! j)) = Inr len \<and> len \<noteq> 0"
    by (simp_all add: f_unnamed_def f_hi_def hi_def lookup_eval)
  have r: "path ?req = Path_Buffer \<and> files ?s = ?fs
              \<and> unat (psize ?req) \<le> length (path_buffer ?s)
              \<and> 0 \<notin> set (take (unat (psize ?req)) (path_buffer ?s))"
    by (simp add: sim_eval)
  have q: "path ?req = Path_Buffer \<and> files ?t = ?gs
              \<and> unat (psize ?req) \<le> length (path_buffer ?t)
              \<and> 0 \<notin> set (take (unat (psize ?req)) (path_buffer ?t))"
    by (simp add: sim_eval)
  from unterminated_path_lookup[OF h, of "Some [0x6E, 0x6F]" ?req ?s] r
    unterminated_path_lookup[OF k, of "Some [0x6E, 0x6F]" ?req ?t] q
  show ?thesis by simp
qed

end
